theory Spec2Isabelle
  imports Main
begin

section \<open>Strings and characters\<close>

text \<open>
  JavaScript strings are modelled as \<^typ>\<open>string\<close>: every character is one code unit
  below 256. The regular expressions of the sources are written out as recognisers and
  tokenisers over character lists.
\<close>

abbreviation dquote :: char where "dquote \<equiv> CHR 0x22"
abbreviation squote :: char where "squote \<equiv> CHR 0x27"
abbreviation backtick :: char where "backtick \<equiv> CHR 0x60"

definition is_digit :: "char \<Rightarrow> bool" where
  "is_digit c = (c \<in> set ''0123456789'')"

text \<open>The class \<open>[a-z$_]\<close> under the flag \<open>i\<close>.\<close>

definition is_var_start :: "char \<Rightarrow> bool" where
  "is_var_start c =
     (c \<in> set ''abcdefghijklmnopqrstuvwxyzABCDEFGHIJKLMNOPQRSTUVWXYZ$_'')"

text \<open>The class \<open>[a-z$_\d]\<close> under the flag \<open>i\<close>.\<close>

definition is_var_char :: "char \<Rightarrow> bool" where
  "is_var_char c = (is_var_start c \<or> is_digit c)"

text \<open>The dot of a regular expression matches every character but a line terminator.\<close>

definition is_line_terminator :: "char \<Rightarrow> bool" where
  "is_line_terminator c = (c = CHR 0x0A \<or> c = CHR 0x0D)"

text \<open>The characters \<open>String.prototype.trim\<close> removes, among the code units below 256.\<close>

definition is_space :: "char \<Rightarrow> bool" where
  "is_space c = (c \<in> set [CHR 0x09, CHR 0x0A, CHR 0x0B, CHR 0x0C, CHR 0x0D, CHR 0x20, CHR 0xA0])"

definition trim :: "string \<Rightarrow> string" where
  "trim s = rev (dropWhile is_space (rev (dropWhile is_space s)))"

text \<open>Comparison of strings with \<open><\<close>: lexicographic, by code unit.\<close>

fun str_less :: "string \<Rightarrow> string \<Rightarrow> bool" where
  "str_less [] [] = False"
| "str_less [] (y # ys) = True"
| "str_less (x # xs) [] = False"
| "str_less (x # xs) (y # ys) =
     ((of_char x :: nat) < of_char y \<or> (x = y \<and> str_less xs ys))"

definition ends_with :: "string \<Rightarrow> string \<Rightarrow> bool" where
  "ends_with s suffix =
     (length suffix \<le> length s \<and> drop (length s - length suffix) s = suffix)"

text \<open>\<open>s.slice(0, -n)\<close> for a positive \<open>n\<close>.\<close>

definition slice_end :: "string \<Rightarrow> nat \<Rightarrow> string" where
  "slice_end s n = take (length s - n) s"

text \<open>\<open>parseInt(digits, 10)\<close> on a string of decimal digits.\<close>

definition digit_val :: "char \<Rightarrow> nat" where
  "digit_val c = of_char c - 48"

definition parseInt :: "string \<Rightarrow> nat" where
  "parseInt ds = foldl (\<lambda>n c. 10 * n + digit_val c) 0 ds"

section \<open>Errors\<close>

text \<open>
  Every \<open>throw\<close> of the sources is a value of \<open>error\<close>; the kinds are those of the
  specification's error surface. \<open>JSTypeError\<close> is the \<open>TypeError\<close> of the runtime
  (the sources are modules, hence strict code), raised by an assignment to a member of
  a value that is not an object.
\<close>

datatype error =
    InvalidSource
  | InvalidSyntax
  | MissingIndex
  | MissingProperty
  | InsertOnNonList
  | TypeMismatch
  | IntegrityError
  | InvalidNotationsObject
  | JSTypeError

section \<open>The regular expressions of the two modules\<close>

text \<open>
  \<open>match_quoted q s\<close> matches \<open>.*\<close>, the quote \<open>q\<close> and a closing bracket at the start
  of \<open>s\<close>, greedily: the quoted text runs to the last \<open>q]\<close> that no line terminator
  precedes. It returns the text and what follows the bracket.
\<close>

fun match_quoted :: "char \<Rightarrow> string \<Rightarrow> (string \<times> string) option" where
  "match_quoted q [] = None"
| "match_quoted q (c # cs) =
     (if is_line_terminator c then None
      else (case match_quoted q cs of
              Some (w, r) \<Rightarrow> Some (c # w, r)
            | None \<Rightarrow>
                (if c = q then
                   (case cs of
                      [] \<Rightarrow> None
                    | d # r \<Rightarrow> if d = CHR '']'' then Some ([], r) else None)
                 else None)))"

text \<open>
  One bracket note at the start of a string, as the matchers take it:
  \<open>\[(\d+|\*|".*"|'.*'|`.*`)\]\<close>, the star only for globs and the backtick only for the
  matcher of plain notations. The result is the matched text and the rest.
\<close>

definition match_bracket :: "bool \<Rightarrow> bool \<Rightarrow> string \<Rightarrow> (string \<times> string) option" where
  "match_bracket star tick s =
     (case s of
        [] \<Rightarrow> None
      | b # cs \<Rightarrow>
          if b \<noteq> CHR ''['' then None
          else if takeWhile is_digit cs \<noteq> [] then
            (case dropWhile is_digit cs of
               [] \<Rightarrow> None
             | d # r \<Rightarrow>
                 if d = CHR '']'' then Some (b # takeWhile is_digit cs @ '']'', r) else None)
          else
            (case cs of
               [] \<Rightarrow> None
             | q # cs' \<Rightarrow>
                 if star \<and> q = CHR ''*'' then
                   (case cs' of
                      [] \<Rightarrow> None
                    | d # r \<Rightarrow> if d = CHR '']'' then Some (''[*]'', r) else None)
                 else if q = dquote \<or> q = squote \<or> (tick \<and> q = backtick) then
                   (case match_quoted q cs' of
                      None \<Rightarrow> None
                    | Some (w, r) \<Rightarrow> Some (b # q # w @ [q, CHR '']''], r))
                 else None))"

text \<open>
  One match of a matcher at the start of a string. The alternatives are tried in the
  order of the expression: a bracket note, a variable name (greedy), and for globs a
  lone star.
\<close>

definition match_note :: "bool \<Rightarrow> bool \<Rightarrow> string \<Rightarrow> (string \<times> string) option" where
  "match_note star tick s =
     (case match_bracket star tick s of
        Some m \<Rightarrow> Some m
      | None \<Rightarrow>
          (case s of
             [] \<Rightarrow> None
           | c # cs \<Rightarrow>
               if is_var_start c then Some (c # takeWhile is_var_char cs, dropWhile is_var_char cs)
               else if star \<and> c = CHR ''*'' then Some (''*'', cs)
               else None))"

lemma match_quoted_shorter: "match_quoted q s = Some (w, r) \<Longrightarrow> length r < length s"
  by (induction s arbitrary: w r) (auto split: if_splits option.splits list.splits)

lemma dropWhile_Cons_shorter: "dropWhile P cs = d # r \<Longrightarrow> length r < length cs"
  using length_dropWhile_le [of P cs] by simp


lemma match_bracket_shorter: "match_bracket star tick s = Some (t, r) \<Longrightarrow> length r < length s"
proof (cases s)
  case Nil
  assume "match_bracket star tick s = Some (t, r)"
  with Nil show ?thesis by (simp add: match_bracket_def)
next
  case (Cons b cs)
  assume m: "match_bracket star tick s = Some (t, r)"
  show ?thesis
  proof (cases "takeWhile is_digit cs \<noteq> []")
    case True
    with m Cons obtain d where "dropWhile is_digit cs = d # r"
      by (auto simp: match_bracket_def split: if_splits list.splits)
    then have "length r < length cs" by (rule dropWhile_Cons_shorter)
    with Cons show ?thesis by simp
  next
    case False
    show ?thesis
    proof (cases cs)
      case Nil
      with m Cons False show ?thesis by (simp add: match_bracket_def split: if_splits)
    next
      case (Cons q cs')
      note c2 = this
      from m \<open>s = b # cs\<close> False c2
      have "(\<exists>d. cs' = d # r) \<or> (\<exists>w. match_quoted q cs' = Some (w, r))"
        by (auto simp add: match_bracket_def split: if_splits list.splits option.splits prod.splits)
      then have "length r < length cs'"
        by (auto dest: match_quoted_shorter)
      with c2 \<open>s = b # cs\<close> show ?thesis by simp
    qed
  qed
qed

lemma match_note_shorter: "match_note star tick s = Some (t, r) \<Longrightarrow> length r < length s"
proof (cases "match_bracket star tick s")
  case (Some m)
  assume "match_note star tick s = Some (t, r)"
  with Some have "match_bracket star tick s = Some (t, r)" by (simp add: match_note_def)
  then show ?thesis by (rule match_bracket_shorter)
next
  case None
  assume "match_note star tick s = Some (t, r)"
  with None obtain c cs where s: "s = c # cs" and r: "r = dropWhile is_var_char cs \<or> r = cs"
    by (auto simp: match_note_def split: list.splits if_splits)
  have "length (dropWhile is_var_char cs) \<le> length cs" by (rule length_dropWhile_le)
  with s r show ?thesis by auto
qed

text \<open>
  \<open>str.match(re)\<close> for a matcher with the flag \<open>g\<close>: all matches, left to right; a
  character at which nothing matches is skipped. (No match at all gives \<open>null\<close> in
  JavaScript, the empty list here.)
\<close>

function match_all :: "bool \<Rightarrow> bool \<Rightarrow> string \<Rightarrow> string list" where
  "match_all star tick [] = []"
| "match_all star tick (c # cs) =
     (case match_note star tick (c # cs) of
        Some (t, r) \<Rightarrow> t # match_all star tick r
      | None \<Rightarrow> match_all star tick cs)"
  by pat_completeness auto
termination
  by (relation "measure (\<lambda>(star, tick, s). length s)") (auto dest: match_note_shorter)

text \<open>
  The validators are anchored expressions, so \<open>test\<close> is membership in their language.
  A quoted bracket note can end at any \<open>q]\<close> the line holds, and the matcher backtracks
  over them: the functions below list every rest a group can leave.
\<close>

fun quoted_rests :: "char \<Rightarrow> string \<Rightarrow> string list" where
  "quoted_rests q [] = []"
| "quoted_rests q [c] = []"
| "quoted_rests q (c # d # r) =
     (if c = q \<and> d = CHR '']'' then [r] else [])
     @ (if is_line_terminator c then [] else quoted_rests q (d # r))"

text \<open>A closing bracket.\<close>

fun close_rests :: "string \<Rightarrow> string list" where
  "close_rests [] = []"
| "close_rests (d # r) = (if d = CHR '']'' then [r] else [])"

text \<open>The group \<open>\[(\d+|\*|".*"|'.*')\]\<close>, the star only for globs.\<close>

fun bracket_rests :: "bool \<Rightarrow> string \<Rightarrow> string list" where
  "bracket_rests star [] = []"
| "bracket_rests star [b] = []"
| "bracket_rests star (b # q # cs) =
     (if b \<noteq> CHR ''['' then []
      else
        (if is_digit q then close_rests (dropWhile is_digit cs) else [])
        @ (if star \<and> q = CHR ''*'' then close_rests cs
           else if q = dquote \<or> q = squote then quoted_rests q cs
           else []))"

text \<open>
  The first group of a validator: a star (globs), a variable name, or a bracket note.
  A variable name is taken whole: a shorter one leaves a name character, at which no
  group starts and the input does not end.
\<close>

definition first_rests :: "bool \<Rightarrow> string \<Rightarrow> string list" where
  "first_rests star s =
     (case s of
        [] \<Rightarrow> []
      | c # cs \<Rightarrow>
          (if star \<and> c = CHR ''*'' then [cs] else [])
          @ (if is_var_start c then [dropWhile is_var_char cs] else []))
     @ bracket_rests star s"

text \<open>The repeated group: a bracket note, a dot and a name, or (globs) a dot and a star.\<close>

definition follow_rests :: "bool \<Rightarrow> string \<Rightarrow> string list" where
  "follow_rests star s =
     bracket_rests star s
     @ (case s of
          [] \<Rightarrow> []
        | d # cs \<Rightarrow>
            if d \<noteq> CHR ''.'' then []
            else
              (case cs of
                 [] \<Rightarrow> []
               | c # cs' \<Rightarrow>
                   if is_var_start c then [dropWhile is_var_char cs']
                   else if star \<and> c = CHR ''*'' then [cs']
                   else []))"

lemma quoted_rests_shorter: "x \<in> set (quoted_rests q s) \<Longrightarrow> length x < length s"
  by (induction q s rule: quoted_rests.induct) (auto split: if_splits)

lemma close_rests_shorter: "x \<in> set (close_rests s) \<Longrightarrow> length x < length s"
  by (cases s) (auto split: if_splits)

lemma bracket_rests_shorter: "x \<in> set (bracket_rests star s) \<Longrightarrow> length x < length s"
proof (induction star s rule: bracket_rests.induct)
  case (3 star b q cs)
  then consider "x \<in> set (close_rests (dropWhile is_digit cs))" | "x \<in> set (close_rests cs)"
    | "x \<in> set (quoted_rests q cs)"
    by (auto split: if_splits)
  then have "length x < length cs"
  proof cases
    case 1
    then have "length x < length (dropWhile is_digit cs)" by (rule close_rests_shorter)
    also have "\<dots> \<le> length cs" by (rule length_dropWhile_le)
    finally show ?thesis .
  next
    case 2
    then show ?thesis by (rule close_rests_shorter)
  next
    case 3
    then show ?thesis by (rule quoted_rests_shorter)
  qed
  then show ?case by simp
qed simp_all

lemma follow_rests_shorter: "x \<in> set (follow_rests star s) \<Longrightarrow> length x < length s"
proof -
  assume a: "x \<in> set (follow_rests star s)"
  show ?thesis
  proof (cases "x \<in> set (bracket_rests star s)")
    case True
    then show ?thesis by (rule bracket_rests_shorter)
  next
    case False
    with a obtain d c cs' where s: "s = d # c # cs'"
      and x: "x = dropWhile is_var_char cs' \<or> x = cs'"
      by (cases s; cases "tl s") (auto simp: follow_rests_def split: if_splits)
    have "length (dropWhile is_var_char cs') \<le> length cs'" by (rule length_dropWhile_le)
    with s x show ?thesis by auto
  qed
qed

function valid_tail :: "bool \<Rightarrow> string \<Rightarrow> bool" where
  "valid_tail star s = (s = [] \<or> list_ex (valid_tail star) (follow_rests star s))"
  by pat_completeness auto
termination
  by (relation "measure (\<lambda>(star, s). length s)") (auto dest: follow_rests_shorter)

declare valid_tail.simps [simp del]


text \<open>Sequencing of computations that can throw.\<close>

definition bindE :: "error + 'a \<Rightarrow> ('a \<Rightarrow> error + 'b) \<Rightarrow> error + 'b" where
  "bindE m f = (case m of Inl e \<Rightarrow> Inl e | Inr x \<Rightarrow> f x)"

lemma bindE_simps [simp]: "bindE (Inl e) f = Inl e" "bindE (Inr x) f = f x"
  by (simp_all add: bindE_def)

lemma bindE_cong [fundef_cong]:
  "m = m' \<Longrightarrow> (\<And>x. m' = Inr x \<Longrightarrow> f x = f' x) \<Longrightarrow> bindE m f = bindE m' f'"
  by (auto simp: bindE_def split: sum.splits)

lemma bindE_eq_Inr: "bindE m f = Inr y \<longleftrightarrow> (\<exists>x. m = Inr x \<and> f x = Inr y)"
  by (cases m) simp_all

text \<open>\<open>str.replace(/^!/, '')\<close>.\<close>

fun strip_bang :: "string \<Rightarrow> string" where
  "strip_bang [] = []"
| "strip_bang (c # cs) = (if c = CHR ''!'' then cs else c # cs)"

text \<open>\<open>str.replace(/\.$/, '')\<close>.\<close>

definition strip_dot :: "string \<Rightarrow> string" where
  "strip_dot s = (if s \<noteq> [] \<and> last s = CHR ''.'' then butlast s else s)"

section \<open>Helpers of the utility module\<close>

text \<open>
  Modelled from the spec: the module \<open>utils\<close> (\<open>src/utils\<close>) is not among the sources.
  Its patterns and helpers are written from the specification's words: the wildcard
  Notes \<open>*\<close> and \<open>[*]\<close>, the negate-everything patterns, the trailing wildcards that
  construction removes from a pattern that is not negated, the normalisation of a Note
  (bracketed digits to an index, quoted or plain text to a key) and the joining of
  Notes.
\<close>

text \<open>Modelled from the spec: \<open>re.WILDCARD\<close>, the bare wildcard.\<close>

definition re_WILDCARD :: "string \<Rightarrow> bool" where
  "re_WILDCARD s = (s = ''*'' \<or> s = ''[*]'')"

text \<open>Modelled from the spec: \<open>re.NEGATE_ALL\<close>, the negate-everything patterns.\<close>

definition re_NEGATE_ALL :: "string \<Rightarrow> bool" where
  "re_NEGATE_ALL s = (s = ''!*'' \<or> s = ''![*]'')"

text \<open>Modelled from the spec: \<open>re.ARRAY_GLOB_NOTE\<close>, an index Note or the index wildcard.\<close>

definition re_ARRAY_GLOB_NOTE :: "string \<Rightarrow> bool" where
  "re_ARRAY_GLOB_NOTE s =
     (s = ''[*]'' \<or>
      (3 \<le> length s \<and> hd s = CHR ''['' \<and> last s = CHR '']'' \<and>
       list_all is_digit (butlast (tl s))))"

text \<open>Modelled from the spec: \<open>re.ARRAY_NOTE\<close>, an index Note.\<close>

definition re_ARRAY_NOTE :: "string \<Rightarrow> bool" where
  "re_ARRAY_NOTE s =
     (3 \<le> length s \<and> hd s = CHR ''['' \<and> last s = CHR '']'' \<and>
      list_all is_digit (butlast (tl s)))"

text \<open>Modelled from the spec: \<open>re.VAR\<close>, a plain identifier.\<close>

definition re_VAR :: "string \<Rightarrow> bool" where
  "re_VAR s = (s \<noteq> [] \<and> is_var_start (hd s) \<and> list_all is_var_char (tl s))"

text \<open>
  Modelled from the spec: \<open>utils.removeTrailingWildcards\<close>. The trailing \<open>.*\<close> and
  \<open>[*]\<close> are removed from a pattern that is not negated, as long as something is left
  before them.
\<close>

function strip_wildcard_trail :: "string \<Rightarrow> string" where
  "strip_wildcard_trail s =
     (if ends_with s ''.*'' \<and> 2 < length s then strip_wildcard_trail (slice_end s 2)
      else if ends_with s ''[*]'' \<and> 3 < length s then strip_wildcard_trail (slice_end s 3)
      else s)"
  by pat_completeness auto
termination
  by (relation "measure length") (auto simp: slice_end_def)

declare strip_wildcard_trail.simps [simp del]

definition removeTrailingWildcards :: "string \<Rightarrow> string" where
  "removeTrailingWildcards glob =
     (if glob \<noteq> [] \<and> hd glob = CHR ''!'' then glob else strip_wildcard_trail glob)"

text \<open>Modelled from the spec: \<open>utils.normalizeGlobStr\<close>.\<close>

definition normalizeGlobStr :: "string \<Rightarrow> string" where
  "normalizeGlobStr glob = removeTrailingWildcards (trim glob)"

text \<open>
  Modelled from the spec: \<open>utils.joinNotes\<close>. A Note is followed by a dot unless it is
  the last one or the next one is a bracket Note; an empty entry (also standing for
  \<open>null\<close>) adds nothing and takes no dot before it.
\<close>

fun joinNotes :: "string list \<Rightarrow> string" where
  "joinNotes [] = []"
| "joinNotes [n] = n"
| "joinNotes (n # m # ns) =
     (if n = [] then joinNotes (m # ns)
      else n @ (if m = [] \<or> hd m = CHR ''['' then [] else ''.'') @ joinNotes (m # ns))"

text \<open>
  Modelled from the spec: \<open>utils.normalizeNote\<close>. A normalised Note is a key (a string)
  or an index (a number).
\<close>

datatype nnote = NKey string | NIdx nat

definition is_quoted_note :: "string \<Rightarrow> bool" where
  "is_quoted_note s =
     (4 \<le> length s \<and> hd s = CHR ''['' \<and> last s = CHR '']'' \<and>
      hd (tl s) \<in> {dquote, squote, backtick} \<and> last (butlast s) = hd (tl s) \<and>
      \<not> list_ex is_line_terminator s)"

definition normalizeNote :: "string \<Rightarrow> error + nnote" where
  "normalizeNote n =
     (if re_VAR n then Inr (NKey n)
      else if re_ARRAY_NOTE n then Inr (NIdx (parseInt (butlast (tl n))))
      else if is_quoted_note n then Inr (NKey (butlast (butlast (tl (tl n)))))
      else Inl InvalidSyntax)"

section \<open>Glob patterns: \<open>notation.glob.js\<close>\<close>

text \<open>\<open>reVALIDATOR.test\<close> of the glob module: an optional bang, then the Notes.\<close>

definition Glob_isValid :: "string \<Rightarrow> bool" where
  "Glob_isValid glob = list_ex (valid_tail True) (first_rests True (strip_bang glob))"

text \<open>The result of \<open>_inspect\<close>.\<close>

record Inspect =
  glob :: string
  absGlob :: string
  isNegated :: bool

definition Glob_inspect :: "string \<Rightarrow> error + Inspect" where
  "Glob_inspect g0 =
     (let g = normalizeGlobStr g0 in
      if \<not> Glob_isValid g then Inl InvalidSyntax
      else
        let neg = (g \<noteq> [] \<and> hd g = CHR ''!'') in
        Inr \<lparr>glob = g, absGlob = (if neg then tl g else g), isNegated = neg\<rparr>)"

definition Glob_split :: "string \<Rightarrow> bool \<Rightarrow> error + string list" where
  "Glob_split g0 norm =
     (if \<not> Glob_isValid g0 then Inl InvalidSyntax
      else Inr (match_all True False (strip_bang (if norm then normalizeGlobStr g0 else g0))))"

text \<open>
  An instance of \<open>NotationGlob\<close>: the inspection and the fields the constructor adds.
  (The field \<open>regexp\<close> is left out: nothing reads it, and \<open>toRegExp\<close> throws only on
  an invalid \<open>absGlob\<close>, on which \<open>split\<close> has already thrown.)
\<close>

record NotationGlob = Inspect +
  gnotes :: "string list"
  last_note :: "string option"
  parent :: "string option"

definition Glob_create :: "string \<Rightarrow> error + NotationGlob" where
  "Glob_create g0 =
     bindE (Glob_inspect g0) (\<lambda>ins.
     bindE (Glob_split (absGlob ins) True) (\<lambda>ns.
       Inr \<lparr>glob = glob ins, absGlob = absGlob ins, isNegated = isNegated ins,
            gnotes = ns,
            last_note = (if ns = [] then None else Some (last ns)),
            parent = (if 1 < length ns
                      then Some (strip_dot (slice_end (absGlob ins) (length (last ns))))
                      else None)\<rparr>))"

text \<open>The helper \<open>_coversNote\<close>; the second Note is \<open>None\<close> past the end of its list.\<close>

definition coversNote :: "string \<Rightarrow> string option \<Rightarrow> bool" where
  "coversNote a b =
     (if b = Some a then True
      else
        let falsy = (b = None \<or> b = Some []);
            bIsArr = (case b of None \<Rightarrow> False | Some b' \<Rightarrow> b' \<noteq> [] \<and> re_ARRAY_GLOB_NOTE b')
        in if a = ''*'' \<and> (falsy \<or> \<not> bIsArr) then True
           else if a = ''[*]'' \<and> (falsy \<or> bIsArr) then True
           else False)"

text \<open>The loop of \<open>covers\<close> over the Notes of the first pattern.\<close>

fun covers_loop :: "string list \<Rightarrow> string list \<Rightarrow> bool" where
  "covers_loop [] bs = True"
| "covers_loop (a # as) bs =
     (if \<not> coversNote a (case bs of [] \<Rightarrow> None | b # _ \<Rightarrow> Some b) then False
      else covers_loop as (tl bs))"

text \<open>
  An argument of \<open>covers\<close>: a glob string, an inspection (without Notes) or an instance.
\<close>

datatype glob_arg = GStr string | GIns Inspect | GObj NotationGlob

text \<open>The negation flag and the Notes \<open>covers\<close> works on.\<close>

fun covers_arg :: "glob_arg \<Rightarrow> error + (bool \<times> string list)" where
  "covers_arg (GStr s) = bindE (Glob_create s) (\<lambda>g. Inr (isNegated g, gnotes g))"
| "covers_arg (GObj g) = Inr (isNegated g, gnotes g)"
| "covers_arg (GIns i) = bindE (Glob_split (absGlob i) False) (\<lambda>ns. Inr (isNegated i, ns))"

definition Glob_covers :: "glob_arg \<Rightarrow> glob_arg \<Rightarrow> error + bool" where
  "Glob_covers globA globB =
     bindE (covers_arg globA) (\<lambda>(negA, notesA).
     bindE (covers_arg globB) (\<lambda>(negB, notesB).
       if negA \<and> length notesB < length notesA then Inr False
       else Inr (covers_loop notesA notesB)))"

text \<open>
  Modelled from the spec: the wildcard count of \<open>compare\<close> (the matches of
  \<open>re.WILDCARDS\<close>, which is not among the sources): the number of wildcard Notes.
\<close>

definition wildcard_count :: "string \<Rightarrow> nat" where
  "wildcard_count g = length (filter re_WILDCARD (match_all True False g))"

text \<open>Modelled from the spec: \<open>re.WILDCARDS.test\<close>, whether a pattern has a wildcard.\<close>

definition re_WILDCARDS_test :: "string \<Rightarrow> bool" where
  "re_WILDCARDS_test g = (0 < wildcard_count g)"

definition Glob_compare :: "string \<Rightarrow> string \<Rightarrow> error + int" where
  "Glob_compare globA globB =
     (if globA = globB \<or> (re_WILDCARD globA \<and> re_WILDCARD globB) then Inr 0
      else
        bindE (Glob_inspect globA) (\<lambda>a.
        bindE (Glob_inspect globB) (\<lambda>b.
        bindE (Glob_split (absGlob a) False) (\<lambda>notesA.
        bindE (Glob_split (absGlob b) False) (\<lambda>notesB.
          if length notesA = length notesB then
            (let wildCountA = wildcard_count (absGlob a);
                 wildCountB = wildcard_count (absGlob b)
             in if wildCountA = wildCountB then
                  (if \<not> isNegated a \<and> isNegated b then Inr (- 1)
                   else if isNegated a \<and> \<not> isNegated b then Inr 1
                   else Inr (if str_less (absGlob a) (absGlob b) then - 1
                             else if str_less (absGlob b) (absGlob a) then 1 else 0))
                else Inr (if wildCountB < wildCountA then - 1 else 1))
          else Inr (if length notesA < length notesB then - 1 else 1))))))"

text \<open>
  \<open>Array.prototype.sort\<close> with a comparison function, as an insertion sort: every
  element goes before the first element of the sorted part that it compares below.
  For a consistent comparison this is the stable order the language prescribes.
\<close>

fun sort_insert :: "('a \<Rightarrow> 'a \<Rightarrow> error + int) \<Rightarrow> 'a \<Rightarrow> 'a list \<Rightarrow> error + 'a list" where
  "sort_insert cmp x [] = Inr [x]"
| "sort_insert cmp x (y # ys) =
     bindE (cmp x y) (\<lambda>c.
       if c < 0 then Inr (x # y # ys)
       else bindE (sort_insert cmp x ys) (\<lambda>zs. Inr (y # zs)))"

fun sort_from :: "('a \<Rightarrow> 'a \<Rightarrow> error + int) \<Rightarrow> 'a list \<Rightarrow> 'a list \<Rightarrow> error + 'a list" where
  "sort_from cmp acc [] = Inr acc"
| "sort_from cmp acc (x # xs) =
     bindE (sort_insert cmp x acc) (\<lambda>acc'. sort_from cmp acc' xs)"

definition array_sort :: "('a \<Rightarrow> 'a \<Rightarrow> error + int) \<Rightarrow> 'a list \<Rightarrow> error + 'a list" where
  "array_sort cmp xs = sort_from cmp [] xs"

definition Glob_sort :: "string list \<Rightarrow> error + string list" where
  "Glob_sort globsArray = array_sort Glob_compare globsArray"

text \<open>The helper \<open>_negFirstSort\<close>; its pattern is \<open>/^\s*!/\<close>.\<close>

definition rx_neg :: "string \<Rightarrow> bool" where
  "rx_neg s = (case dropWhile is_space s of [] \<Rightarrow> False | c # _ \<Rightarrow> c = CHR ''!'')"

definition negFirstSort :: "string \<Rightarrow> string \<Rightarrow> error + int" where
  "negFirstSort a b = Inr (if rx_neg a then - 1 else if rx_neg b then 1 else 0)"

definition isReverseOf :: "Inspect \<Rightarrow> Inspect \<Rightarrow> bool" where
  "isReverseOf a b = (isNegated a \<noteq> isNegated b \<and> absGlob a = absGlob b)"

text \<open>
  The loop of \<open>_intersect\<close>: the intersected Notes, none when the loop breaks. A Note
  past the end of its list (\<open>undefined\<close>) is a missing head.
\<close>

fun intersect_loop :: "string list \<Rightarrow> string list \<Rightarrow> string list \<Rightarrow> string list" where
  "intersect_loop [] [] notesI = notesI"
| "intersect_loop (a # as) [] notesI =
     intersect_loop as [] (notesI @ [a])"
| "intersect_loop [] (b # bs) notesI =
     intersect_loop [] bs (notesI @ [b])"
| "intersect_loop (a # as) (b # bs) notesI =
     (if a = b then intersect_loop as bs (notesI @ [a])
      else if a \<noteq> [] \<and> re_WILDCARD a then intersect_loop as bs (notesI @ [b])
      else if b \<noteq> [] \<and> re_WILDCARD b then intersect_loop as bs (notesI @ [a])
      else if a \<noteq> [] \<and> b = [] then intersect_loop as bs (notesI @ [a])
      else if a = [] \<and> b \<noteq> [] then intersect_loop as bs (notesI @ [b])
      else [])"

definition has_bang :: "string \<Rightarrow> bool" where
  "has_bang g = (g \<noteq> [] \<and> hd g = CHR ''!'')"

definition Glob_intersect :: "string \<Rightarrow> string \<Rightarrow> error + string option" where
  "Glob_intersect globA globB =
     (let bang = (if has_bang globA \<or> has_bang globB then ''!'' else [])
      in bindE (Glob_split globA False) (\<lambda>notesA.
         bindE (Glob_split globB False) (\<lambda>notesB.
           let notesI = intersect_loop notesA notesB []
           in if notesI \<noteq> [] then Inr (Some (bang @ joinNotes notesI)) else Inr None)))"

text \<open>
  The flags of one pass of the inner loop of \<open>normalize\<close>; \<open>spliced\<close> records that
  \<open>list.splice(indexA, 1)\<close> ran.
\<close>

record NormFlags =
  duplicate :: bool
  hasExactNeg :: bool
  negCoversPos :: bool
  negCoveredByPos :: bool
  negCoveredByNeg :: bool
  posCoversPos :: bool
  posCoveredByNeg :: bool
  posCoveredByPos :: bool
  spliced :: bool

definition flags0 :: NormFlags where
  "flags0 = \<lparr>duplicate = False, hasExactNeg = False, negCoversPos = False,
     negCoveredByPos = False, negCoveredByNeg = False, posCoversPos = False,
     posCoveredByNeg = False, posCoveredByPos = False, spliced = False\<rparr>"

text \<open>\<open>intersections[_int] = _int\<close> on the object that keeps the intersections.\<close>

definition add_key :: "string \<Rightarrow> string list \<Rightarrow> string list" where
  "add_key k ks = (if k \<in> set ks then ks else ks @ [k])"

definition add_intersection :: "string option \<Rightarrow> string list \<Rightarrow> string list" where
  "add_intersection i ks =
     (case i of None \<Rightarrow> ks | Some k \<Rightarrow> if k = [] then ks else add_key k ks)"

text \<open>
  The inner loop of \<open>normalize\<close> for the glob \<open>a\<close>, over the other globs of the list in
  the order \<open>eachRight\<close> visits them. Returning early is its \<open>return false\<close>.
\<close>

fun normalize_inner ::
  "Inspect \<Rightarrow> Inspect list \<Rightarrow> NormFlags \<Rightarrow> string list \<Rightarrow> error + (NormFlags \<times> string list)" where
  "normalize_inner a [] f ints = Inr (f, ints)"
| "normalize_inner a (b # bs) f ints =
     (if glob a = glob b then Inr (f\<lparr>duplicate := True, spliced := True\<rparr>, ints)
      else if \<not> isNegated a \<and> isReverseOf a b then
        Inr (f\<lparr>hasExactNeg := True, spliced := True\<rparr>, ints)
      else
        bindE (Glob_covers (GIns a) (GIns b)) (\<lambda>coversB.
        bindE (if coversB then Inr False else Glob_covers (GIns b) (GIns a)) (\<lambda>coveredByB.
          if isNegated a then
            (if isNegated b then
               (if coveredByB then Inr (f\<lparr>negCoveredByNeg := True, spliced := True\<rparr>, ints)
                else normalize_inner a bs f ints)
             else
               (let f' = f\<lparr>negCoversPos := negCoversPos f \<or> coversB,
                           negCoveredByPos := negCoveredByPos f \<or> coveredByB\<rparr>
                in if \<not> coversB \<and> \<not> coveredByB then
                     bindE (Glob_intersect (glob a) (glob b)) (\<lambda>i.
                       normalize_inner a bs f' (add_intersection i ints))
                   else normalize_inner a bs f' ints))
          else
            (if isNegated b then
               (if coveredByB then Inr (f\<lparr>posCoveredByNeg := True, spliced := True\<rparr>, ints)
                else if \<not> coversB \<and> \<not> coveredByB then
                  bindE (Glob_intersect (glob a) (glob b)) (\<lambda>i.
                    normalize_inner a bs f (add_intersection i ints))
                else normalize_inner a bs f ints)
             else
               (let f' = f\<lparr>posCoversPos := posCoversPos f \<or> coversB\<rparr>
                in if coveredByB then Inr (f'\<lparr>posCoveredByPos := True, spliced := True\<rparr>, ints)
                   else normalize_inner a bs f' ints)))))"

definition normalize_keep :: "Inspect \<Rightarrow> NormFlags \<Rightarrow> bool" where
  "normalize_keep a f =
     (\<not> hasExactNeg f \<and>
      (if isNegated a then (negCoversPos f \<or> negCoveredByPos f) \<and> \<not> negCoveredByNeg f
       else (posCoversPos f \<or> \<not> posCoveredByPos f) \<and> \<not> posCoveredByNeg f))"

text \<open>
  The outer loop of \<open>normalize\<close>. The globs still to visit are given last first; the
  globs to the right of the current one are those the earlier passes did not splice
  out. The result is the flag \<open>negateAll\<close>, the keepers and the intersections.
\<close>

fun normalize_outer ::
  "Inspect list \<Rightarrow> Inspect list \<Rightarrow> string list \<Rightarrow> string list
     \<Rightarrow> error + (bool \<times> string list \<times> string list)" where
  "normalize_outer [] right normalized ints = Inr (False, normalized, ints)"
| "normalize_outer (a # left_rev) right normalized ints =
     (if re_NEGATE_ALL (glob a) then Inr (True, normalized, ints)
      else
        bindE (normalize_inner a (rev right @ left_rev) flags0 ints) (\<lambda>(f, ints').
          normalize_outer left_rev
            (if spliced f then right else a # right)
            (if normalize_keep a f \<and> \<not> duplicate f then normalized @ [glob a] else normalized)
            ints'))"

text \<open>\<open>list.map(_inspect)\<close>: the first invalid glob throws.\<close>

fun map_inspect :: "string list \<Rightarrow> error + Inspect list" where
  "map_inspect [] = Inr []"
| "map_inspect (g # gs) =
     bindE (Glob_inspect g) (\<lambda>i. bindE (map_inspect gs) (\<lambda>is. Inr (i # is)))"

definition Glob_normalize :: "string list \<Rightarrow> error + string list" where
  "Glob_normalize globsArray =
     bindE (array_sort negFirstSort globsArray) (\<lambda>sortedGlobs.
     bindE (map_inspect sortedGlobs) (\<lambda>list.
       if length list = 1 then
         (let g = hd list in if isNegated g then Inr [] else Inr [glob g])
       else
         bindE (normalize_outer (rev list) [] [] []) (\<lambda>(negateAll, normalized, ints).
           if negateAll then Inr [] else Glob_sort (normalized @ ints))))"

text \<open>The state of the inner loop of \<open>_compareUnion\<close>.\<close>

record UnionFlags =
  notCovered :: bool
  hasExact :: bool
  u_negCoversNeg :: bool
  u_posCoversNeg :: bool
  u_posCoversPos :: bool
  u_negCoversPos :: bool
  negIntersections :: "string list"

definition uflags0 :: UnionFlags where
  "uflags0 = \<lparr>notCovered = False, hasExact = False, u_negCoversNeg = False,
     u_posCoversNeg = False, u_posCoversPos = False, u_negCoversPos = False,
     negIntersections = []\<rparr>"

fun compareUnion_inner ::
  "string \<Rightarrow> Inspect \<Rightarrow> string list \<Rightarrow> UnionFlags \<Rightarrow> error + UnionFlags" where
  "compareUnion_inner globA a [] f = Inr f"
| "compareUnion_inner globA a (globB # rest) f0 =
     (let f = (if globA = globB then f0\<lparr>hasExact := True\<rparr> else f0) in
      bindE (Glob_inspect globB) (\<lambda>b.
      bindE (Glob_covers (GIns b) (GIns a)) (\<lambda>c.
        if \<not> c then
          (if isNegated a \<and> isNegated b then
             bindE (Glob_intersect (glob a) (glob b)) (\<lambda>i.
               compareUnion_inner globA a rest
                 (f\<lparr>notCovered := True,
                    negIntersections :=
                      (case i of None \<Rightarrow> negIntersections f
                       | Some s \<Rightarrow> if s = [] then negIntersections f
                                   else negIntersections f @ [s])\<rparr>))
           else compareUnion_inner globA a rest (f\<lparr>notCovered := True\<rparr>))
        else if isNegated a then
          (if isNegated b then
             compareUnion_inner globA a rest
               (f\<lparr>notCovered := False, u_negCoversNeg := \<not> hasExact f\<rparr>)
           else compareUnion_inner globA a rest (f\<lparr>notCovered := False, u_posCoversNeg := True\<rparr>))
        else
          (if \<not> isNegated b then
             compareUnion_inner globA a rest
               (f\<lparr>notCovered := False, u_posCoversPos := \<not> hasExact f\<rparr>)
           else compareUnion_inner globA a rest (f\<lparr>notCovered := False, u_negCoversPos := True\<rparr>)))))"

text \<open>
  The outer loop of \<open>_compareUnion\<close>, over the first list last glob first, with the
  union built so far.
\<close>

fun compareUnion_outer :: "string list \<Rightarrow> string list \<Rightarrow> string list \<Rightarrow> error + string list" where
  "compareUnion_outer [] globsListB uni = Inr uni"
| "compareUnion_outer (globA # rest) globsListB uni =
     (if globA \<in> set uni then compareUnion_outer rest globsListB uni
      else
        bindE (Glob_inspect globA) (\<lambda>a.
          if re_WILDCARD (absGlob a) then compareUnion_outer rest globsListB (uni @ [glob a])
          else
            bindE (compareUnion_inner globA a (rev globsListB) uflags0) (\<lambda>f.
              let keep = (if isNegated a then \<not> u_posCoversNeg f \<or> u_negCoversNeg f
                          else \<not> u_posCoversPos f \<or> u_negCoversPos f)
              in if hasExact f \<or> keep \<or> (notCovered f \<and> \<not> isNegated a) then
                   compareUnion_outer rest globsListB (uni @ [glob a])
                 else if isNegated a \<and> u_posCoversNeg f \<and> \<not> u_negCoversNeg f
                         \<and> negIntersections f \<noteq> [] then
                   compareUnion_outer rest globsListB (uni @ negIntersections f)
                 else compareUnion_outer rest globsListB uni)))"

definition Glob_compareUnion :: "string list \<Rightarrow> string list \<Rightarrow> string list \<Rightarrow> error + string list" where
  "Glob_compareUnion globsListA globsListB uni =
     compareUnion_outer (rev globsListA) globsListB uni"

definition Glob_union :: "string list \<Rightarrow> string list \<Rightarrow> error + string list" where
  "Glob_union globsA globsB =
     (if globsA = [] then Inr globsB
      else if globsB = [] then Inr globsA
      else
        bindE (Glob_normalize globsA) (\<lambda>listA.
        bindE (Glob_normalize globsB) (\<lambda>listB.
        bindE (Glob_compareUnion listA listB []) (\<lambda>uni.
        bindE (Glob_compareUnion listB listA uni) Glob_normalize))))"

section \<open>Trees\<close>

text \<open>
  A tree is a scalar leaf, a key-value map in the order of its keys, or a list. The
  maps are association lists: the first entry of a key is the member. A hole of a list
  reads as \<open>undefined\<close> and counts in its length, so it is the value \<open>Undefined\<close>.
  Objects are values here: a tree shares no part with another tree. This is the model
  of the operations whose writes go to one tree only (\<open>get\<close>, \<open>set\<close>, \<open>remove\<close>,
  \<open>flatten\<close>, \<open>expand\<close>). \<open>filter\<close> puts parts of its source into its result, and
  is modelled on a heap of objects, further below.
\<close>

datatype jsval =
    Undefined
  | Null
  | Bool bool
  | Num int
  | Str string
  | Obj "(string \<times> jsval) list"
  | Arr "jsval list"

text \<open>Modelled from the spec: \<open>utils.type\<close>, the coarse type of a value.\<close>

fun js_type :: "jsval \<Rightarrow> string" where
  "js_type Undefined = ''undefined''"
| "js_type Null = ''null''"
| "js_type (Bool b) = ''boolean''"
| "js_type (Num n) = ''number''"
| "js_type (Str s) = ''string''"
| "js_type (Obj kvs) = ''object''"
| "js_type (Arr xs) = ''array''"

text \<open>Modelled from the spec: \<open>utils.isCollection\<close>, a map or a list.\<close>

fun isCollection :: "jsval \<Rightarrow> bool" where
  "isCollection (Obj kvs) = True"
| "isCollection (Arr xs) = True"
| "isCollection v = False"

text \<open>Modelled from the spec: \<open>utils.isset\<close>, neither \<open>undefined\<close> nor \<open>null\<close>.\<close>

definition isset :: "jsval \<Rightarrow> bool" where
  "isset v = (v \<noteq> Undefined \<and> v \<noteq> Null)"

text \<open>The decimal text of a number, as a property key.\<close>

function show_nat :: "nat \<Rightarrow> string" where
  "show_nat n =
     (if n < 10 then [''0123456789'' ! n]
      else show_nat (n div 10) @ [''0123456789'' ! (n mod 10)])"
  by pat_completeness auto
termination
  by (relation "measure id") auto

declare show_nat.simps [simp del]

text \<open>
  Modelled from the spec: \<open>utils.hasOwn\<close>, whether a normalised Note is an own member:
  a key of a map, or an index within a list. A scalar has no member, and an index is
  no member of a map.
\<close>

fun hasOwn :: "jsval \<Rightarrow> nnote \<Rightarrow> bool" where
  "hasOwn (Obj kvs) (NKey k) = (k \<in> fst ` set kvs)"
| "hasOwn (Arr xs) (NIdx i) = (i < length xs)"
| "hasOwn v n = False"

text \<open>
  The member read \<open>level[note]\<close>. A number is the key of its decimal text on a map;
  what is missing reads as \<open>undefined\<close>.
\<close>

definition obj_get :: "(string \<times> jsval) list \<Rightarrow> string \<Rightarrow> jsval" where
  "obj_get kvs k = (case map_of kvs k of None \<Rightarrow> Undefined | Some v \<Rightarrow> v)"

fun member :: "jsval \<Rightarrow> nnote \<Rightarrow> jsval" where
  "member (Obj kvs) (NKey k) = obj_get kvs k"
| "member (Obj kvs) (NIdx i) = obj_get kvs (show_nat i)"
| "member (Arr xs) (NIdx i) = (if i < length xs then xs ! i else Undefined)"
| "member v n = Undefined"

text \<open>
  The keys of an object are kept in the order of \<open>Object.keys\<close>: the array indices in
  ascending order first, then the other keys in the order of their creation.
\<close>

text \<open>
  An array index as a key is the decimal text, without a leading zero, of a number
  below \<open>2^32 - 1\<close>. Two such texts compare as their numbers do: by length, then
  by their characters.
\<close>

definition index_key_less :: "string \<Rightarrow> string \<Rightarrow> bool" where
  "index_key_less a b = (length a < length b \<or> (length a = length b \<and> str_less a b))"

definition is_index_key :: "string \<Rightarrow> bool" where
  "is_index_key k =
     (k \<noteq> [] \<and> list_all is_digit k \<and> (k = ''0'' \<or> hd k \<noteq> CHR ''0'') \<and>
      index_key_less k ''4294967295'')"

fun insert_index_key :: "string \<Rightarrow> 'a \<Rightarrow> (string \<times> 'a) list \<Rightarrow> (string \<times> 'a) list" where
  "insert_index_key k v [] = [(k, v)]"
| "insert_index_key k v ((k', v') # kvs) =
     (if is_index_key k' \<and> index_key_less k' k then (k', v') # insert_index_key k v kvs
      else (k, v) # (k', v') # kvs)"

fun obj_replace :: "string \<Rightarrow> 'a \<Rightarrow> (string \<times> 'a) list \<Rightarrow> (string \<times> 'a) list" where
  "obj_replace k v [] = []"
| "obj_replace k v ((k', v') # kvs) =
     (if k' = k then (k, v) # kvs else (k', v') # obj_replace k v kvs)"

definition obj_put :: "string \<Rightarrow> 'a \<Rightarrow> (string \<times> 'a) list \<Rightarrow> (string \<times> 'a) list" where
  "obj_put k v kvs =
     (if k \<in> fst ` set kvs then obj_replace k v kvs
      else if is_index_key k then insert_index_key k v kvs
      else kvs @ [(k, v)])"

text \<open>
  \<open>map[k] = v\<close>. The key \<open>__proto__\<close>, when it is not an own member, is taken by the
  inherited setter: the write goes to the prototype, which is no part of a tree, and
  makes no own member.
\<close>

definition obj_set :: "string \<Rightarrow> 'a \<Rightarrow> (string \<times> 'a) list \<Rightarrow> (string \<times> 'a) list" where
  "obj_set k v kvs =
     (if k = ''__proto__'' \<and> k \<notin> fst ` set kvs then kvs else obj_put k v kvs)"

text \<open>The indices of a list are the numbers below \<open>2^32 - 1\<close>.\<close>

definition is_array_index :: "nat \<Rightarrow> bool" where
  "is_array_index i = (int i < 4294967295)"

text \<open>
  \<open>list[i] = v\<close>: past the end, the list grows and the gap is holes. A number that
  is no index makes a property beside the items, which a list here does not keep: the
  items and the length stay as they are.
\<close>

definition arr_put :: "nat \<Rightarrow> jsval \<Rightarrow> jsval list \<Rightarrow> jsval list" where
  "arr_put i v xs =
     (if i < length xs then xs[i := v]
      else if is_array_index i then xs @ replicate (i - length xs) Undefined @ [v]
      else xs)"

text \<open>
  The member write \<open>level[note] = v\<close>. On a scalar it throws (strict code). A string
  key written on a list is a property beside its items, which a list here does not
  keep; \<open>set\<close> never writes one.
\<close>

fun assign :: "jsval \<Rightarrow> nnote \<Rightarrow> jsval \<Rightarrow> error + jsval" where
  "assign (Obj kvs) (NKey k) v = Inr (Obj (obj_set k v kvs))"
| "assign (Obj kvs) (NIdx i) v = Inr (Obj (obj_set (show_nat i) v kvs))"
| "assign (Arr xs) (NIdx i) v = Inr (Arr (arr_put i v xs))"
| "assign (Arr xs) (NKey k) v = Inr (Arr xs)"
| "assign t n v = Inl JSTypeError"

text \<open>\<open>list.splice(i, 0, v)\<close> and \<open>list.splice(i, 1)\<close>.\<close>

definition splice_insert :: "nat \<Rightarrow> 'a \<Rightarrow> 'a list \<Rightarrow> 'a list" where
  "splice_insert i v xs = take i xs @ [v] @ drop i xs"

definition splice_remove :: "nat \<Rightarrow> 'a list \<Rightarrow> 'a list" where
  "splice_remove i xs = take i xs @ drop (Suc i) xs"

text \<open>\<open>delete parent[note]\<close>: a key leaves the map, an item of a list becomes a hole.\<close>

fun delete_member :: "jsval \<Rightarrow> nnote \<Rightarrow> jsval" where
  "delete_member (Obj kvs) (NKey k) = Obj (filter (\<lambda>kv. fst kv \<noteq> k) kvs)"
| "delete_member (Obj kvs) (NIdx i) = Obj (filter (\<lambda>kv. fst kv \<noteq> show_nat i) kvs)"
| "delete_member (Arr xs) (NIdx i) = Arr (if i < length xs then xs[i := Undefined] else xs)"
| "delete_member t n = t"

fun is_Arr :: "jsval \<Rightarrow> bool" where
  "is_Arr (Arr xs) = True"
| "is_Arr v = False"

fun is_NIdx :: "nnote \<Rightarrow> bool" where
  "is_NIdx (NIdx i) = True"
| "is_NIdx n = False"

section \<open>Notation paths: the static members of \<open>notation.js\<close>\<close>

text \<open>\<open>reVALIDATOR.test\<close> of the notation module.\<close>

definition Notation_isValid :: "string \<Rightarrow> bool" where
  "Notation_isValid notation = list_ex (valid_tail False) (first_rests False notation)"

definition Notation_split :: "string \<Rightarrow> error + string list" where
  "Notation_split notation =
     (if \<not> Notation_isValid notation then Inl InvalidSyntax
      else Inr (match_all False True notation))"

definition Notation_join :: "string list \<Rightarrow> string" where
  "Notation_join ns = joinNotes ns"

definition Notation_countNotes :: "string \<Rightarrow> error + nat" where
  "Notation_countNotes notation = bindE (Notation_split notation) (\<lambda>ns. Inr (length ns))"

text \<open>
  \<open>Notation.last\<close>. (A valid notation has a Note; on an empty list the source reads
  \<open>undefined\<close> and fails on its length, here \<open>InvalidSyntax\<close>.)
\<close>

definition Notation_last :: "string \<Rightarrow> error + string" where
  "Notation_last notation =
     bindE (Notation_split notation) (\<lambda>ns. if ns = [] then Inl InvalidSyntax else Inr (last ns))"

text \<open>\<open>Notation.parent\<close>: \<open>None\<close> is \<open>null\<close>.\<close>

definition Notation_parent :: "string \<Rightarrow> error + string option" where
  "Notation_parent notation =
     bindE (Notation_last notation) (\<lambda>l.
       let p = strip_dot (slice_end notation (length l))
       in Inr (if p = [] then None else Some p))"

text \<open>
  \<open>Notation.eachNote\<close> builds the notation of every level; \<open>level_notations\<close> lists
  them for the callers that use them.
\<close>

definition level_notations :: "string list \<Rightarrow> string list" where
  "level_notations ns = map (\<lambda>i. Notation_join (take (Suc i) ns)) [0..<length ns]"

section \<open>The tree accessor: the instance members of \<open>notation.js\<close>\<close>

text \<open>
  The trees an accessor and its caller hold are the cells of a store; a cell is a whole
  tree. \<open>source\<close> is the reference \<open>_source\<close>. A mutation in place writes the cell; an
  assignment to \<open>_source\<close> changes the reference.
\<close>

type_synonym store = "jsval list"

definition deref :: "store \<Rightarrow> nat \<Rightarrow> jsval" where
  "deref st r = (if r < length st then st ! r else Undefined)"

definition alloc :: "store \<Rightarrow> jsval \<Rightarrow> nat \<times> store" where
  "alloc st v = (length st, st @ [v])"

record Options =
  strict :: bool
  preserveIndices :: bool

definition DEFAULT_OPTS :: Options where
  "DEFAULT_OPTS = \<lparr>strict = False, preserveIndices = False\<rparr>"

record Notation =
  source :: nat
  isArray :: bool
  options :: Options

text \<open>The constructor, on a tree of the store and with all options given.\<close>

definition Notation_create :: "store \<Rightarrow> nat \<Rightarrow> Options \<Rightarrow> error + Notation" where
  "Notation_create st r opts =
     (if \<not> isCollection (deref st r) then Inl InvalidSource
      else Inr \<lparr>source = r, isArray = (js_type (deref st r) = ''array''), options = opts\<rparr>)"

text \<open>The result of an inspection. A field the source leaves out is \<open>None\<close>.\<close>

record 'v InspectResult =
  r_notation :: "string option"
  r_has :: bool
  r_value :: "'v"
  r_type :: "string option"
  r_level :: "nat option"
  r_lastNote :: "string option"
  r_lastNoteNormalized :: "nnote option"
  r_parentIsArray :: bool

text \<open>
  The loop of \<open>inspectGet\<close> over the Notes: the current level, the variable \<open>parent\<close>
  (\<open>undefined\<close> at first) and the result so far.
\<close>

fun inspectGet_each ::
  "string \<Rightarrow> string list \<Rightarrow> nat \<Rightarrow> jsval \<Rightarrow> jsval \<Rightarrow> jsval InspectResult
     \<Rightarrow> error + (jsval \<times> jsval InspectResult)" where
  "inspectGet_each notation [] index lvl par res = Inr (par, res)"
| "inspectGet_each notation (n # rest) index lvl par res =
     bindE (normalizeNote n) (\<lambda>lastNoteNormalized.
       if hasOwn lvl lastNoteNormalized then
         (let lvl' = member lvl lastNoteNormalized
          in inspectGet_each notation rest (index + 1) lvl' lvl'
               \<lparr>r_notation = Some notation, r_has = True, r_value = lvl',
                r_type = Some (js_type lvl'), r_level = Some (index + 1),
                r_lastNote = Some n, r_lastNoteNormalized = Some lastNoteNormalized,
                r_parentIsArray = False\<rparr>)
       else
         Inr (par,
              \<lparr>r_notation = Some notation, r_has = False, r_value = Undefined,
               r_type = Some ''undefined'', r_level = Some (index + 1),
               r_lastNote = Some n, r_lastNoteNormalized = Some lastNoteNormalized,
               r_parentIsArray = False\<rparr>))"

definition inspect_init :: "jsval InspectResult" where
  "inspect_init =
     \<lparr>r_notation = None, r_has = False, r_value = Undefined, r_type = None,
      r_level = None, r_lastNote = None, r_lastNoteNormalized = None,
      r_parentIsArray = False\<rparr>"

text \<open>\<open>inspectGet\<close> on a tree.\<close>

definition tree_inspectGet :: "jsval \<Rightarrow> string \<Rightarrow> error + jsval InspectResult" where
  "tree_inspectGet src notation =
     bindE (Notation_split notation) (\<lambda>ns.
     bindE (inspectGet_each notation ns 0 src Undefined inspect_init) (\<lambda>(par, res).
       let par' = (if par = Undefined \<or> (r_has res \<and> par = r_value res) then src else par)
       in Inr (res\<lparr>r_parentIsArray := (js_type par' = ''array'')\<rparr>)))"

definition Notation_inspectGet ::
  "store \<Rightarrow> Notation \<Rightarrow> string \<Rightarrow> error + jsval InspectResult" where
  "Notation_inspectGet st this notation = tree_inspectGet (deref st (source this)) notation"

definition Notation_has :: "store \<Rightarrow> Notation \<Rightarrow> string \<Rightarrow> error + bool" where
  "Notation_has st this notation =
     bindE (Notation_inspectGet st this notation) (\<lambda>res. Inr (r_has res))"

definition Notation_hasDefined :: "store \<Rightarrow> Notation \<Rightarrow> string \<Rightarrow> error + bool" where
  "Notation_hasDefined st this notation =
     bindE (Notation_inspectGet st this notation) (\<lambda>res. Inr (r_value res \<noteq> Undefined))"

text \<open>\<open>get\<close>; the default value is \<open>None\<close> when the call has one argument.\<close>

definition tree_get :: "bool \<Rightarrow> jsval \<Rightarrow> string \<Rightarrow> jsval option \<Rightarrow> error + jsval" where
  "tree_get strct src notation defaultValue =
     bindE (tree_inspectGet src notation) (\<lambda>res.
       if strct \<and> defaultValue = None \<and> \<not> r_has res then
         Inl (if r_parentIsArray res then MissingIndex else MissingProperty)
       else Inr (if r_has res then r_value res
                 else (case defaultValue of None \<Rightarrow> Undefined | Some d \<Rightarrow> d)))"

definition Notation_get :: "store \<Rightarrow> Notation \<Rightarrow> string \<Rightarrow> jsval option \<Rightarrow> error + jsval" where
  "Notation_get st this notation defaultValue =
     tree_get (strict (options this)) (deref st (source this)) notation defaultValue"

text \<open>The write modes of \<open>set\<close>: \<open>"overwrite"\<close> (or \<open>true\<close>), \<open>"insert"\<close>, anything else.\<close>

datatype set_mode = Overwrite | Insert | NoOverwrite

text \<open>
  The loop of \<open>set\<close> from a level on: the new value of that level. The level is
  changed in place in the source; here the changed member is put back where it was.
  Where the Note is no own member, \<open>level[note] = x; level = level[note]\<close> goes on with
  \<open>x\<close>: the read gives back what was written, also when the write made no own member
  (the prototype behind \<open>__proto__\<close>, a property beside the items of a list).
\<close>

fun set_each :: "jsval \<Rightarrow> set_mode \<Rightarrow> string list \<Rightarrow> jsval \<Rightarrow> error + jsval" where
  "set_each v mode [] lvl = Inr lvl"
| "set_each v mode (n # rest) lvl =
     bindE (normalizeNote n) (\<lambda>nCurrentNote.
     bindE (case rest of [] \<Rightarrow> Inr None
            | nx # _ \<Rightarrow> bindE (normalizeNote nx) (\<lambda>m. Inr (Some m))) (\<lambda>nNextNote.
       if is_Arr lvl \<and> \<not> is_NIdx nCurrentNote then Inl TypeMismatch
       else if hasOwn lvl nCurrentNote then
         (if rest = [] then
            (case mode of
               Overwrite \<Rightarrow> assign lvl nCurrentNote v
             | Insert \<Rightarrow>
                 (case (lvl, nCurrentNote) of
                    (Arr xs, NIdx i) \<Rightarrow> Inr (Arr (splice_insert i v xs))
                  | _ \<Rightarrow> Inl InsertOnNonList)
             | NoOverwrite \<Rightarrow> Inr lvl)
          else
            bindE (set_each v mode rest (member lvl nCurrentNote)) (\<lambda>child.
              assign lvl nCurrentNote child))
       else if rest = [] \<and> \<not> is_Arr lvl \<and> mode = Insert then Inl InsertOnNonList
       else if rest = [] then assign lvl nCurrentNote v
       else
         (let fresh = (case nNextNote of Some (NIdx i) \<Rightarrow> Arr [] | _ \<Rightarrow> Obj [])
          in bindE (assign lvl nCurrentNote fresh) (\<lambda>lvl1.
             bindE (set_each v mode rest fresh) (\<lambda>child.
               assign lvl1 nCurrentNote child)))))"

definition tree_set :: "jsval \<Rightarrow> string \<Rightarrow> jsval \<Rightarrow> set_mode \<Rightarrow> error + jsval" where
  "tree_set src notation v mode =
     (if trim notation = [] then Inl InvalidSyntax
      else bindE (Notation_split notation) (\<lambda>ns. set_each v mode ns src))"

text \<open>\<open>set\<close>: the tree of the accessor is changed in place.\<close>

definition Notation_set ::
  "store \<Rightarrow> Notation \<Rightarrow> string \<Rightarrow> jsval \<Rightarrow> set_mode \<Rightarrow> error + store" where
  "Notation_set st this notation v mode =
     bindE (tree_set (deref st (source this)) notation v mode) (\<lambda>t.
       Inr (st[source this := t]))"

text \<open>
  A change in place of the value that the Notes of a path lead to: what
  \<open>inspectRemove\<close> does to the parent it got from \<open>get\<close>.
\<close>

fun replace_member :: "jsval \<Rightarrow> nnote \<Rightarrow> jsval \<Rightarrow> jsval" where
  "replace_member (Obj kvs) (NKey k) v = Obj (obj_replace k v kvs)"
| "replace_member (Arr xs) (NIdx i) v = Arr (xs[i := v])"
| "replace_member t n v = t"

fun modify_at :: "string list \<Rightarrow> (jsval \<Rightarrow> jsval) \<Rightarrow> jsval \<Rightarrow> jsval" where
  "modify_at [] f t = f t"
| "modify_at (n # rest) f t =
     (case normalizeNote n of
        Inl e \<Rightarrow> t
      | Inr m \<Rightarrow>
          if hasOwn t m then replace_member t m (modify_at rest f (member t m)) else t)"

text \<open>The removal of \<open>inspectRemove\<close> from the parent it found.\<close>

definition remove_member :: "bool \<Rightarrow> nnote \<Rightarrow> jsval \<Rightarrow> jsval" where
  "remove_member preserve n par =
     (case (par, n) of
        (Arr xs, NIdx i) \<Rightarrow> if \<not> preserve then Arr (splice_remove i xs) else delete_member par n
      | _ \<Rightarrow> delete_member par n)"

text \<open>\<open>inspectRemove\<close> on a tree: the result and the tree after the removal.\<close>

definition tree_inspectRemove ::
  "bool \<Rightarrow> jsval \<Rightarrow> string \<Rightarrow> error + (jsval InspectResult \<times> jsval)" where
  "tree_inspectRemove preserve src notation =
     (if notation = [] then Inl InvalidSyntax
      else
        bindE (Notation_parent notation) (\<lambda>parentNotation.
        bindE (case parentNotation of
                 None \<Rightarrow> Inr src
               | Some pn \<Rightarrow> tree_get False src pn (Some Null)) (\<lambda>par.
        bindE (Notation_split notation) (\<lambda>ns.
        bindE (normalizeNote (last ns)) (\<lambda>lastNoteNormalized.
          if hasOwn par lastNoteNormalized then
            Inr (\<lparr>r_notation = Some notation, r_has = True,
                  r_value = member par lastNoteNormalized,
                  r_type = Some (js_type (member par lastNoteNormalized)),
                  r_level = Some (length ns), r_lastNote = Some (last ns),
                  r_lastNoteNormalized = Some lastNoteNormalized,
                  r_parentIsArray = is_Arr par\<rparr>,
                 (case parentNotation of
                    None \<Rightarrow> remove_member preserve lastNoteNormalized src
                  | Some pn \<Rightarrow>
                      (case Notation_split pn of
                         Inl e \<Rightarrow> src
                       | Inr pns \<Rightarrow>
                           modify_at pns (remove_member preserve lastNoteNormalized) src)))
          else
            Inr (\<lparr>r_notation = Some notation, r_has = False, r_value = Undefined,
                  r_type = Some ''undefined'', r_level = Some (length ns),
                  r_lastNote = Some (last ns),
                  r_lastNoteNormalized = Some lastNoteNormalized,
                  r_parentIsArray = is_Arr par\<rparr>, src))))))"

definition Notation_inspectRemove ::
  "store \<Rightarrow> Notation \<Rightarrow> string \<Rightarrow> error + (jsval InspectResult \<times> store)" where
  "Notation_inspectRemove st this notation =
     bindE (tree_inspectRemove (preserveIndices (options this)) (deref st (source this)) notation)
       (\<lambda>(res, t). Inr (res, st[source this := t]))"

text \<open>\<open>remove\<close>. (Its removal is not undone when it throws; the error is all that is kept.)\<close>

definition Notation_remove :: "store \<Rightarrow> Notation \<Rightarrow> string \<Rightarrow> error + store" where
  "Notation_remove st this notation =
     bindE (Notation_inspectRemove st this notation) (\<lambda>(res, st').
       if strict (options this) \<and> \<not> r_has res then
         Inl (if r_parentIsArray res then MissingIndex else MissingProperty)
       else Inr st')"

section \<open>Walking, flattening and expanding a tree\<close>

text \<open>
  The helper \<open>_each\<close>: the deep walk of a collection, given as the list of the calls
  of its callback (notation, Note, value). The callback of \<open>flatten\<close> never returns
  \<open>false\<close> and does not change the collection, so the walk visits everything as it
  was at the start. The parent notation \<open>null\<close> is the empty string. A list is walked
  from its last item when \<open>reverseIfArray\<close> is set.
\<close>

fun each_walk :: "bool \<Rightarrow> bool \<Rightarrow> string \<Rightarrow> jsval \<Rightarrow> (string \<times> string \<times> jsval) list"
  and each_props ::
    "bool \<Rightarrow> bool \<Rightarrow> string \<Rightarrow> (string \<times> jsval) list \<Rightarrow> (string \<times> string \<times> jsval) list"
  and each_items ::
    "bool \<Rightarrow> bool \<Rightarrow> string \<Rightarrow> nat \<Rightarrow> jsval list \<Rightarrow> (string \<times> string \<times> jsval) list" where
  "each_walk rv byLevel par (Obj kvs) = each_props rv byLevel par kvs"
| "each_walk rv byLevel par (Arr xs) = each_items rv byLevel par 0 xs"
| "each_walk rv byLevel par Undefined = []"
| "each_walk rv byLevel par Null = []"
| "each_walk rv byLevel par (Bool b) = []"
| "each_walk rv byLevel par (Num n) = []"
| "each_walk rv byLevel par (Str s) = []"
| "each_props rv byLevel par [] = []"
| "each_props rv byLevel par (kv # kvs) =
     (if \<not> isCollection (snd kv) \<or> byLevel
      then [(Notation_join [par, fst kv], fst kv, snd kv)] else [])
     @ each_walk rv byLevel (Notation_join [par, fst kv]) (snd kv)
     @ each_props rv byLevel par kvs"
| "each_items rv byLevel par i [] = []"
| "each_items rv byLevel par i (v # vs) =
     (let n = ''['' @ show_nat i @ '']'';
          visit = (if \<not> isCollection v \<or> byLevel then [(Notation_join [par, n], n, v)] else [])
                  @ each_walk rv byLevel (Notation_join [par, n]) v
      in if rv then each_items rv byLevel par (Suc i) vs @ visit
         else visit @ each_items rv byLevel par (Suc i) vs)"

text \<open>\<open>flatten\<close>: the leaves go into a new object, which becomes the source.\<close>

definition flatten_tree :: "jsval \<Rightarrow> jsval" where
  "flatten_tree t =
     Obj (foldl (\<lambda>acc (notation, key, v). obj_set notation v acc) [] (each_walk False False [] t))"

definition Notation_flatten :: "store \<Rightarrow> Notation \<Rightarrow> store \<times> Notation" where
  "Notation_flatten st this =
     (let (r, st') = alloc st (flatten_tree (deref st (source this)))
      in (st', this\<lparr>source := r\<rparr>))"

text \<open>\<open>str.includes(sub)\<close>.\<close>

fun str_includes :: "string \<Rightarrow> string \<Rightarrow> bool" where
  "str_includes [] sub = (sub = [])"
| "str_includes (c # cs) sub = (take (length sub) (c # cs) = sub \<or> str_includes cs sub)"

definition reserved :: "string \<Rightarrow> bool" where
  "reserved notation =
     (str_includes notation ''__proto__'' \<or> str_includes notation ''prototype''
      \<or> str_includes notation ''constructor'')"

text \<open>The loop of \<open>merge\<close> over the keys of the notations object.\<close>

fun merge_each :: "store \<Rightarrow> Notation \<Rightarrow> (string \<times> jsval) list \<Rightarrow> set_mode \<Rightarrow> error + store" where
  "merge_each st this [] mode = Inr st"
| "merge_each st this (kv # kvs) mode =
     (if reserved (fst kv) then merge_each st this kvs mode
      else bindE (Notation_set st this (fst kv) (snd kv) mode) (\<lambda>st'.
             merge_each st' this kvs mode))"

definition Notation_merge :: "store \<Rightarrow> Notation \<Rightarrow> jsval \<Rightarrow> bool \<Rightarrow> error + store" where
  "Notation_merge st this notationsObject overwrite =
     (case notationsObject of
        Obj kvs \<Rightarrow> merge_each st this kvs (if overwrite then Overwrite else NoOverwrite)
      | _ \<Rightarrow> Inl InvalidNotationsObject)"

text \<open>\<open>expand\<close>: the source is merged into a new empty object, which becomes the source.\<close>

definition Notation_expand :: "store \<Rightarrow> Notation \<Rightarrow> error + (store \<times> Notation)" where
  "Notation_expand st this =
     (let (r, st1) = alloc st (Obj [])
      in bindE (Notation_create st1 r DEFAULT_OPTS) (\<lambda>n.
         bindE (Notation_merge st1 n (deref st (source this)) True) (\<lambda>st2.
           Inr (st2, this\<lparr>source := source n\<rparr>))))"

section \<open>Filtering: the objects on a heap\<close>

text \<open>
  \<open>filter\<close> builds its result from the source: a value that it sets in the result is
  the value the source holds, and for a map or a list that is the object itself, not a
  copy. To tell the object from a copy, the objects of \<open>filter\<close> live on a heap: a
  value is a scalar or the address of a cell, a cell is a map or a list of values, and
  a write changes the cell at an address for every holder of the address. The accessor
  holds the address of its source. The members of \<open>notation.js\<close> that \<open>filter\<close> calls
  are written again on the heap, line by line as on a tree.
\<close>

datatype hval = HUndefined | HNull | HBool bool | HNum int | HStr string | HRef nat

datatype hcell = HObj "(string \<times> hval) list" | HArr "hval list"

type_synonym heap = "hcell list"

text \<open>The cell at an address. Every address in use is below the length of the heap.\<close>

definition cell :: "heap \<Rightarrow> nat \<Rightarrow> hcell" where
  "cell h r = (if r < length h then h ! r else HObj [])"

definition h_alloc :: "heap \<Rightarrow> hcell \<Rightarrow> nat \<times> heap" where
  "h_alloc h c = (length h, h @ [c])"

text \<open>Modelled from the spec: \<open>utils.type\<close>, \<open>utils.isCollection\<close> and \<open>utils.isset\<close>.\<close>

fun h_type :: "heap \<Rightarrow> hval \<Rightarrow> string" where
  "h_type h HUndefined = ''undefined''"
| "h_type h HNull = ''null''"
| "h_type h (HBool b) = ''boolean''"
| "h_type h (HNum n) = ''number''"
| "h_type h (HStr s) = ''string''"
| "h_type h (HRef r) = (case cell h r of HObj kvs \<Rightarrow> ''object'' | HArr xs \<Rightarrow> ''array'')"

fun h_isCollection :: "hval \<Rightarrow> bool" where
  "h_isCollection (HRef r) = True"
| "h_isCollection v = False"

definition h_isset :: "hval \<Rightarrow> bool" where
  "h_isset v = (v \<noteq> HUndefined \<and> v \<noteq> HNull)"

text \<open>Modelled from the spec: \<open>utils.hasOwn\<close>, on the cell of a collection.\<close>

fun cell_hasOwn :: "hcell \<Rightarrow> nnote \<Rightarrow> bool" where
  "cell_hasOwn (HObj kvs) (NKey k) = (k \<in> fst ` set kvs)"
| "cell_hasOwn (HArr xs) (NIdx i) = (i < length xs)"
| "cell_hasOwn c n = False"

fun h_hasOwn :: "heap \<Rightarrow> hval \<Rightarrow> nnote \<Rightarrow> bool" where
  "h_hasOwn h (HRef r) n = cell_hasOwn (cell h r) n"
| "h_hasOwn h v n = False"

text \<open>The member read \<open>level[note]\<close>, on the cell of a collection.\<close>

definition hobj_get :: "(string \<times> hval) list \<Rightarrow> string \<Rightarrow> hval" where
  "hobj_get kvs k = (case map_of kvs k of None \<Rightarrow> HUndefined | Some v \<Rightarrow> v)"

fun cell_member :: "hcell \<Rightarrow> nnote \<Rightarrow> hval" where
  "cell_member (HObj kvs) (NKey k) = hobj_get kvs k"
| "cell_member (HObj kvs) (NIdx i) = hobj_get kvs (show_nat i)"
| "cell_member (HArr xs) (NIdx i) = (if i < length xs then xs ! i else HUndefined)"
| "cell_member (HArr xs) (NKey k) = HUndefined"

fun h_member :: "heap \<Rightarrow> hval \<Rightarrow> nnote \<Rightarrow> hval" where
  "h_member h (HRef r) n = cell_member (cell h r) n"
| "h_member h v n = HUndefined"

text \<open>
  The member write \<open>level[note] = v\<close>: the cell of the level changes, for every value
  that holds its address. On a scalar it throws (strict code).
\<close>

definition harr_put :: "nat \<Rightarrow> hval \<Rightarrow> hval list \<Rightarrow> hval list" where
  "harr_put i v xs =
     (if i < length xs then xs[i := v]
      else if is_array_index i then xs @ replicate (i - length xs) HUndefined @ [v]
      else xs)"

fun cell_assign :: "hcell \<Rightarrow> nnote \<Rightarrow> hval \<Rightarrow> hcell" where
  "cell_assign (HObj kvs) (NKey k) v = HObj (obj_set k v kvs)"
| "cell_assign (HObj kvs) (NIdx i) v = HObj (obj_set (show_nat i) v kvs)"
| "cell_assign (HArr xs) (NIdx i) v = HArr (harr_put i v xs)"
| "cell_assign (HArr xs) (NKey k) v = HArr xs"

fun h_assign :: "heap \<Rightarrow> hval \<Rightarrow> nnote \<Rightarrow> hval \<Rightarrow> error + heap" where
  "h_assign h (HRef r) n v = Inr (h[r := cell_assign (cell h r) n v])"
| "h_assign h lvl n v = Inl JSTypeError"

text \<open>\<open>delete parent[note]\<close> and \<open>parent.splice(i, 1)\<close>, \<open>level.splice(i, 0, v)\<close>.\<close>

fun cell_delete :: "hcell \<Rightarrow> nnote \<Rightarrow> hcell" where
  "cell_delete (HObj kvs) (NKey k) = HObj (filter (\<lambda>kv. fst kv \<noteq> k) kvs)"
| "cell_delete (HObj kvs) (NIdx i) = HObj (filter (\<lambda>kv. fst kv \<noteq> show_nat i) kvs)"
| "cell_delete (HArr xs) (NIdx i) = HArr (if i < length xs then xs[i := HUndefined] else xs)"
| "cell_delete (HArr xs) (NKey k) = HArr xs"

fun cell_splice_remove :: "hcell \<Rightarrow> nnote \<Rightarrow> hcell" where
  "cell_splice_remove (HArr xs) (NIdx i) = HArr (splice_remove i xs)"
| "cell_splice_remove c n = c"

fun cell_splice_insert :: "hcell \<Rightarrow> nnote \<Rightarrow> hval \<Rightarrow> hcell" where
  "cell_splice_insert (HArr xs) (NIdx i) v = HArr (splice_insert i v xs)"
| "cell_splice_insert c n v = c"

fun h_update :: "heap \<Rightarrow> hval \<Rightarrow> (hcell \<Rightarrow> hcell) \<Rightarrow> heap" where
  "h_update h (HRef r) f = h[r := f (cell h r)]"
| "h_update h v f = h"

text \<open>The constructor on a value of the heap, with the default options.\<close>

definition h_create :: "heap \<Rightarrow> hval \<Rightarrow> error + Notation" where
  "h_create h v =
     (case v of
        HRef r \<Rightarrow> Inr \<lparr>source = r, isArray = (h_type h v = ''array''), options = DEFAULT_OPTS\<rparr>
      | _ \<Rightarrow> Inl InvalidSource)"

text \<open>\<open>inspectGet\<close> and \<open>get\<close>, as on a tree, with the levels read from the heap.\<close>

fun h_inspectGet_each ::
  "heap \<Rightarrow> string \<Rightarrow> string list \<Rightarrow> nat \<Rightarrow> hval \<Rightarrow> hval \<Rightarrow> hval InspectResult
     \<Rightarrow> error + (hval \<times> hval InspectResult)" where
  "h_inspectGet_each h notation [] index lvl par res = Inr (par, res)"
| "h_inspectGet_each h notation (n # rest) index lvl par res =
     bindE (normalizeNote n) (\<lambda>lastNoteNormalized.
       if h_hasOwn h lvl lastNoteNormalized then
         (let lvl' = h_member h lvl lastNoteNormalized
          in h_inspectGet_each h notation rest (index + 1) lvl' lvl'
               \<lparr>r_notation = Some notation, r_has = True, r_value = lvl',
                r_type = Some (h_type h lvl'), r_level = Some (index + 1),
                r_lastNote = Some n, r_lastNoteNormalized = Some lastNoteNormalized,
                r_parentIsArray = False\<rparr>)
       else
         Inr (par,
              \<lparr>r_notation = Some notation, r_has = False, r_value = HUndefined,
               r_type = Some ''undefined'', r_level = Some (index + 1),
               r_lastNote = Some n, r_lastNoteNormalized = Some lastNoteNormalized,
               r_parentIsArray = False\<rparr>))"

definition h_inspect_init :: "hval InspectResult" where
  "h_inspect_init =
     \<lparr>r_notation = None, r_has = False, r_value = HUndefined, r_type = None,
      r_level = None, r_lastNote = None, r_lastNoteNormalized = None,
      r_parentIsArray = False\<rparr>"

definition h_inspectGet :: "heap \<Rightarrow> Notation \<Rightarrow> string \<Rightarrow> error + hval InspectResult" where
  "h_inspectGet h this notation =
     bindE (Notation_split notation) (\<lambda>ns.
     bindE (h_inspectGet_each h notation ns 0 (HRef (source this)) HUndefined h_inspect_init)
       (\<lambda>(par, res).
       let par' = (if par = HUndefined \<or> (r_has res \<and> par = r_value res)
                   then HRef (source this) else par)
       in Inr (res\<lparr>r_parentIsArray := (h_type h par' = ''array'')\<rparr>)))"

definition h_get :: "heap \<Rightarrow> Notation \<Rightarrow> string \<Rightarrow> hval option \<Rightarrow> error + hval" where
  "h_get h this notation defaultValue =
     bindE (h_inspectGet h this notation) (\<lambda>res.
       if strict (options this) \<and> defaultValue = None \<and> \<not> r_has res then
         Inl (if r_parentIsArray res then MissingIndex else MissingProperty)
       else Inr (if r_has res then r_value res
                 else (case defaultValue of None \<Rightarrow> HUndefined | Some d \<Rightarrow> d)))"

text \<open>
  The loop of \<open>set\<close> from a level on. A level is an address, and a write changes its
  cell, so every holder of the address sees the change. A level that \<open>set\<close> creates
  is a new cell.
\<close>

fun h_set_each :: "hval \<Rightarrow> set_mode \<Rightarrow> string list \<Rightarrow> heap \<Rightarrow> hval \<Rightarrow> error + heap" where
  "h_set_each v mode [] h lvl = Inr h"
| "h_set_each v mode (n # rest) h lvl =
     bindE (normalizeNote n) (\<lambda>nCurrentNote.
     bindE (case rest of [] \<Rightarrow> Inr None
            | nx # _ \<Rightarrow> bindE (normalizeNote nx) (\<lambda>m. Inr (Some m))) (\<lambda>nNextNote.
       if h_type h lvl = ''array'' \<and> \<not> is_NIdx nCurrentNote then Inl TypeMismatch
       else if h_hasOwn h lvl nCurrentNote then
         (if rest = [] then
            (case mode of
               Overwrite \<Rightarrow> h_assign h lvl nCurrentNote v
             | Insert \<Rightarrow>
                 (if h_type h lvl = ''array''
                  then Inr (h_update h lvl (\<lambda>c. cell_splice_insert c nCurrentNote v))
                  else Inl InsertOnNonList)
             | NoOverwrite \<Rightarrow> Inr h)
          else h_set_each v mode rest h (h_member h lvl nCurrentNote))
       else if rest = [] \<and> h_type h lvl \<noteq> ''array'' \<and> mode = Insert then Inl InsertOnNonList
       else if rest = [] then h_assign h lvl nCurrentNote v
       else
         (let (a, h1) = h_alloc h (case nNextNote of Some (NIdx i) \<Rightarrow> HArr [] | _ \<Rightarrow> HObj [])
          in bindE (h_assign h1 lvl nCurrentNote (HRef a)) (\<lambda>h2.
               h_set_each v mode rest h2 (HRef a)))))"

definition h_set :: "heap \<Rightarrow> Notation \<Rightarrow> string \<Rightarrow> hval \<Rightarrow> set_mode \<Rightarrow> error + heap" where
  "h_set h this notation v mode =
     (if trim notation = [] then Inl InvalidSyntax
      else bindE (Notation_split notation) (\<lambda>ns. h_set_each v mode ns h (HRef (source this))))"

text \<open>\<open>inspectRemove\<close> and \<open>remove\<close>: the parent is an address, and its cell changes.\<close>

definition h_inspectRemove ::
  "heap \<Rightarrow> Notation \<Rightarrow> string \<Rightarrow> error + (hval InspectResult \<times> heap)" where
  "h_inspectRemove h this notation =
     (if notation = [] then Inl InvalidSyntax
      else
        bindE (Notation_parent notation) (\<lambda>parentNotation.
        bindE (case parentNotation of
                 None \<Rightarrow> Inr (HRef (source this))
               | Some pn \<Rightarrow> h_get h this pn (Some HNull)) (\<lambda>par.
        bindE (Notation_split notation) (\<lambda>ns.
        bindE (normalizeNote (last ns)) (\<lambda>lastNoteNormalized.
          let parentIsArray = (h_type h par = ''array'') in
          if h_hasOwn h par lastNoteNormalized then
            Inr (\<lparr>r_notation = Some notation, r_has = True,
                  r_value = h_member h par lastNoteNormalized,
                  r_type = Some (h_type h (h_member h par lastNoteNormalized)),
                  r_level = Some (length ns), r_lastNote = Some (last ns),
                  r_lastNoteNormalized = Some lastNoteNormalized,
                  r_parentIsArray = parentIsArray\<rparr>,
                 (if \<not> preserveIndices (options this) \<and> parentIsArray
                  then h_update h par (\<lambda>c. cell_splice_remove c lastNoteNormalized)
                  else h_update h par (\<lambda>c. cell_delete c lastNoteNormalized)))
          else
            Inr (\<lparr>r_notation = Some notation, r_has = False, r_value = HUndefined,
                  r_type = Some ''undefined'', r_level = Some (length ns),
                  r_lastNote = Some (last ns),
                  r_lastNoteNormalized = Some lastNoteNormalized,
                  r_parentIsArray = parentIsArray\<rparr>, h))))))"

definition h_remove :: "heap \<Rightarrow> Notation \<Rightarrow> string \<Rightarrow> error + heap" where
  "h_remove h this notation =
     bindE (h_inspectRemove h this notation) (\<lambda>(res, h').
       if strict (options this) \<and> \<not> r_has res then
         Inl (if r_parentIsArray res then MissingIndex else MissingProperty)
       else Inr h')"

text \<open>
  Modelled from the spec: \<open>utils.cloneDeep\<close>, a deep copy: every map and list reached
  from the value is copied into a new cell. The fuel bounds the depth of the copy; a
  value that is deeper (or that reaches itself) gives \<open>None\<close>.
\<close>

fun h_clone :: "nat \<Rightarrow> heap \<Rightarrow> hval \<Rightarrow> (heap \<times> hval) option"
  and h_clone_props ::
    "nat \<Rightarrow> heap \<Rightarrow> (string \<times> hval) list \<Rightarrow> (heap \<times> (string \<times> hval) list) option"
  and h_clone_items :: "nat \<Rightarrow> heap \<Rightarrow> hval list \<Rightarrow> (heap \<times> hval list) option" where
  "h_clone n h HUndefined = Some (h, HUndefined)"
| "h_clone n h HNull = Some (h, HNull)"
| "h_clone n h (HBool b) = Some (h, HBool b)"
| "h_clone n h (HNum i) = Some (h, HNum i)"
| "h_clone n h (HStr s) = Some (h, HStr s)"
| "h_clone 0 h (HRef r) = None"
| "h_clone (Suc n) h (HRef r) =
     (case cell h r of
        HObj kvs \<Rightarrow>
          (case h_clone_props n h kvs of
             None \<Rightarrow> None
           | Some (h1, kvs') \<Rightarrow> (let (a, h2) = h_alloc h1 (HObj kvs') in Some (h2, HRef a)))
      | HArr xs \<Rightarrow>
          (case h_clone_items n h xs of
             None \<Rightarrow> None
           | Some (h1, xs') \<Rightarrow> (let (a, h2) = h_alloc h1 (HArr xs') in Some (h2, HRef a))))"
| "h_clone_props n h [] = Some (h, [])"
| "h_clone_props n h (kv # kvs) =
     (case h_clone n h (snd kv) of
        None \<Rightarrow> None
      | Some (h1, v') \<Rightarrow>
          (case h_clone_props n h1 kvs of
             None \<Rightarrow> None
           | Some (h2, kvs') \<Rightarrow> Some (h2, (fst kv, v') # kvs')))"
| "h_clone_items n h [] = Some (h, [])"
| "h_clone_items n h (v # vs) =
     (case h_clone n h v of
        None \<Rightarrow> None
      | Some (h1, v') \<Rightarrow>
          (case h_clone_items n h1 vs of
             None \<Rightarrow> None
           | Some (h2, vs') \<Rightarrow> Some (h2, v' # vs')))"

text \<open>
  The tree that a value of the heap stands for, read through the addresses, to the
  depth the fuel allows.
\<close>

fun h_tree :: "nat \<Rightarrow> heap \<Rightarrow> hval \<Rightarrow> jsval option"
  and h_tree_props :: "nat \<Rightarrow> heap \<Rightarrow> (string \<times> hval) list \<Rightarrow> (string \<times> jsval) list option"
  and h_tree_items :: "nat \<Rightarrow> heap \<Rightarrow> hval list \<Rightarrow> jsval list option" where
  "h_tree n h HUndefined = Some Undefined"
| "h_tree n h HNull = Some Null"
| "h_tree n h (HBool b) = Some (Bool b)"
| "h_tree n h (HNum i) = Some (Num i)"
| "h_tree n h (HStr s) = Some (Str s)"
| "h_tree 0 h (HRef r) = None"
| "h_tree (Suc n) h (HRef r) =
     (case cell h r of
        HObj kvs \<Rightarrow> map_option Obj (h_tree_props n h kvs)
      | HArr xs \<Rightarrow> map_option Arr (h_tree_items n h xs))"
| "h_tree_props n h [] = Some []"
| "h_tree_props n h (kv # kvs) =
     (case h_tree n h (snd kv) of
        None \<Rightarrow> None
      | Some v \<Rightarrow> map_option (\<lambda>r. (fst kv, v) # r) (h_tree_props n h kvs))"
| "h_tree_items n h [] = Some []"
| "h_tree_items n h (v # vs) =
     (case h_tree n h v of
        None \<Rightarrow> None
      | Some t \<Rightarrow> map_option (\<lambda>r. t # r) (h_tree_items n h vs))"

text \<open>
  The helper \<open>_each\<close> on the heap, with a callback that changes the heap as the walk
  goes on and never returns \<open>false\<close> (as the callback of \<open>filter\<close>). Modelled from the
  spec: \<open>utils.eachItem\<close>. The keys of a map, or the indices of a list, are taken when
  the walk of the collection starts, the indices from the last one down when
  \<open>reverseIfArray\<close> is set, and each value is read when its turn comes. The fuel bounds
  the depth of the walk.
\<close>

fun member_notes :: "bool \<Rightarrow> hcell \<Rightarrow> nnote list" where
  "member_notes rv (HObj kvs) = map (\<lambda>kv. NKey (fst kv)) kvs"
| "member_notes rv (HArr xs) =
     (if rv then rev (map NIdx [0..<length xs]) else map NIdx [0..<length xs])"

fun note_text :: "nnote \<Rightarrow> string" where
  "note_text (NKey k) = k"
| "note_text (NIdx i) = ''['' @ show_nat i @ '']''"

fun h_each ::
  "nat \<Rightarrow> (heap \<Rightarrow> string \<Rightarrow> string \<Rightarrow> hval \<Rightarrow> error + heap) \<Rightarrow> bool \<Rightarrow> bool \<Rightarrow> string
     \<Rightarrow> heap \<Rightarrow> hval \<Rightarrow> (error + heap) option"
  and h_each_notes ::
  "nat \<Rightarrow> (heap \<Rightarrow> string \<Rightarrow> string \<Rightarrow> hval \<Rightarrow> error + heap) \<Rightarrow> bool \<Rightarrow> bool \<Rightarrow> string
     \<Rightarrow> heap \<Rightarrow> nat \<Rightarrow> nnote list \<Rightarrow> (error + heap) option" where
  "h_each n cb rv byLevel par h HUndefined = Some (Inr h)"
| "h_each n cb rv byLevel par h HNull = Some (Inr h)"
| "h_each n cb rv byLevel par h (HBool b) = Some (Inr h)"
| "h_each n cb rv byLevel par h (HNum i) = Some (Inr h)"
| "h_each n cb rv byLevel par h (HStr s) = Some (Inr h)"
| "h_each 0 cb rv byLevel par h (HRef r) = None"
| "h_each (Suc n) cb rv byLevel par h (HRef r) =
     h_each_notes n cb rv byLevel par h r (member_notes rv (cell h r))"
| "h_each_notes n cb rv byLevel par h r [] = Some (Inr h)"
| "h_each_notes n cb rv byLevel par h r (m # ms) =
     (let v = cell_member (cell h r) m;
          currentNotation = Notation_join [par, note_text m];
          isColl = h_isCollection v
      in case (if \<not> isColl \<or> byLevel then cb h currentNotation (note_text m) v else Inr h) of
           Inl e \<Rightarrow> Some (Inl e)
         | Inr h1 \<Rightarrow>
             (case (if isColl then h_each n cb rv byLevel currentNotation h1 v
                    else Some (Inr h1)) of
                None \<Rightarrow> None
              | Some (Inl e) \<Rightarrow> Some (Inl e)
              | Some (Inr h2) \<Rightarrow> h_each_notes n cb rv byLevel par h2 r ms))"

text \<open>\<open>Notation.Glob#test\<close>.\<close>

definition Glob_test :: "NotationGlob \<Rightarrow> string \<Rightarrow> error + bool" where
  "Glob_test g notation =
     (if \<not> Notation_isValid notation then Inl InvalidSyntax
      else Glob_covers (GObj g) (GStr notation))"

text \<open>
  What \<open>filter\<close> derives from a glob: the glob without its trailing wildcard, the empty
  value to set when it is negated (a new map or list), and the type of that value.
\<close>

record GlobTrail =
  normalized :: string
  emptyCell :: "hcell option"
  eType :: "string option"

definition glob_trail :: "NotationGlob \<Rightarrow> GlobTrail" where
  "glob_trail g =
     (if ends_with (absGlob g) ''.*'' then
        \<lparr>normalized = slice_end (absGlob g) 2,
         emptyCell = (if isNegated g then Some (HObj []) else None),
         eType = Some ''object''\<rparr>
      else if ends_with (absGlob g) ''[*]'' then
        \<lparr>normalized = slice_end (absGlob g) 3,
         emptyCell = (if isNegated g then Some (HArr []) else None),
         eType = Some ''array''\<rparr>
      else \<lparr>normalized = absGlob g, emptyCell = None, eType = None\<rparr>)"

text \<open>
  A glob without wildcards (once its trailing wildcard is off): it is removed from the
  filtered value when negated. Otherwise the value that the source has there is set in
  the filtered value: for a map or a list this is its address, so the filtered value
  then shares that part with the source.
\<close>

definition filter_direct ::
  "heap \<Rightarrow> Notation \<Rightarrow> Notation \<Rightarrow> NotationGlob \<Rightarrow> GlobTrail \<Rightarrow> hval option \<Rightarrow> error + heap" where
  "filter_direct h this filtered g tr emptyValue =
     (if isNegated g then
        bindE (h_inspectRemove h filtered (normalized tr)) (\<lambda>(insRemove, h1).
          case emptyValue of
            None \<Rightarrow> Inr h1
          | Some ev \<Rightarrow>
              (let isValSet = h_isset (r_value insRemove)
               in if (isValSet \<and> r_type insRemove \<noteq> eType tr)
                     \<or> (\<not> isValSet \<and> strict (options this))
                  then Inl IntegrityError
                  else h_set h1 filtered (normalized tr) ev
                         (if r_parentIsArray insRemove then Insert else Overwrite)))
      else
        bindE (h_inspectGet h this (normalized tr)) (\<lambda>insGet.
          if r_has insGet then
            h_set h filtered (normalized tr) (r_value insGet) Overwrite
          else Inr h))"

text \<open>
  The loop over the levels of a covered notation of the source: a level the glob
  covers is removed (and the loop ends) when the glob is negated and not longer than
  the level, and set to the value of the leaf otherwise.
\<close>

fun filter_levels ::
  "heap \<Rightarrow> Notation \<Rightarrow> NotationGlob \<Rightarrow> hval \<Rightarrow> string list \<Rightarrow> error + heap" where
  "filter_levels h filtered g v [] = Inr h"
| "filter_levels h filtered g v (levelNotation # rest) =
     bindE (Glob_test g levelNotation) (\<lambda>t.
       if t then
         bindE (Notation_countNotes levelNotation) (\<lambda>levelLen.
           if isNegated g \<and> length (gnotes g) \<le> levelLen then
             h_remove h filtered levelNotation
           else
             bindE (h_set h filtered levelNotation v Overwrite) (\<lambda>h'.
               filter_levels h' filtered g v rest))
       else filter_levels h filtered g v rest)"

text \<open>The callback of the deep walk of the source, for a glob with wildcards.\<close>

definition filter_leaf ::
  "Notation \<Rightarrow> Notation \<Rightarrow> NotationGlob \<Rightarrow> GlobTrail \<Rightarrow> hval option
     \<Rightarrow> heap \<Rightarrow> string \<Rightarrow> string \<Rightarrow> hval \<Rightarrow> error + heap" where
  "filter_leaf this filtered g tr emptyValue h originalNotation key v =
     bindE (Glob_create (normalized tr)) (\<lambda>gn.
     bindE (Glob_covers (GObj gn) (GStr originalNotation)) (\<lambda>originalIsCovered.
       if \<not> originalIsCovered then Inr h
       else
         bindE (if strict (options this) \<and> emptyValue \<noteq> None then
                  (if Some (h_type h v) \<noteq> eType tr then
                     bindE (Notation_countNotes originalNotation) (\<lambda>n.
                       if int n = int (length (gnotes g)) - 1 then Inl IntegrityError
                       else Inr ())
                   else Inr ())
                else Inr ()) (\<lambda>u.
         bindE (Notation_split originalNotation) (\<lambda>ns.
           filter_levels h filtered g v (level_notations ns)))))"

text \<open>The loop of \<open>filter\<close> over the normalised globs.\<close>

fun filter_globs ::
  "nat \<Rightarrow> heap \<Rightarrow> Notation \<Rightarrow> Notation \<Rightarrow> string list \<Rightarrow> (error + heap) option" where
  "filter_globs fuel h this filtered [] = Some (Inr h)"
| "filter_globs fuel h this filtered (globNotation # globs) =
     (case Glob_create globNotation of
        Inl e \<Rightarrow> Some (Inl e)
      | Inr g \<Rightarrow>
          (let tr = glob_trail g;
               (h0, emptyValue) =
                  (case emptyCell tr of
                     None \<Rightarrow> (h, None)
                   | Some c \<Rightarrow> (let (a, h') = h_alloc h c in (h', Some (HRef a))))
           in case (if \<not> re_WILDCARDS_test (normalized tr)
                    then Some (filter_direct h0 this filtered g tr emptyValue)
                    else h_each fuel (filter_leaf this filtered g tr emptyValue) True False []
                           h0 (HRef (source this))) of
                None \<Rightarrow> None
              | Some (Inl e) \<Rightarrow> Some (Inl e)
              | Some (Inr h1) \<Rightarrow> filter_globs fuel h1 this filtered globs))"

text \<open>
  \<open>filter\<close>: the filtered value starts as a new empty collection or as the clone of
  the source, and becomes the source at the end. The fuel is that of the clone and of
  the walks; \<open>None\<close> is the answer when it runs out.
\<close>

definition Notation_filter ::
  "nat \<Rightarrow> heap \<Rightarrow> Notation \<Rightarrow> string list \<Rightarrow> (error + (heap \<times> Notation)) option" where
  "Notation_filter fuel h this globList =
     (case Glob_normalize globList of
        Inl e \<Rightarrow> Some (Inl e)
      | Inr globs \<Rightarrow>
          (let (e, h1) = h_alloc h (if isArray this then HArr [] else HObj []) in
           if length globs = 0
              \<or> (length globs = 1 \<and> (hd globs = [] \<or> re_NEGATE_ALL (hd globs)))
           then Some (Inr (h1, this\<lparr>source := e\<rparr>))
           else
             (case h_clone fuel h1 (HRef (source this)) of
                Some (h2, HRef c) \<Rightarrow>
                  (let firstIsWildcard = re_WILDCARD (hd globs) in
                   if length globs = 1 \<and> firstIsWildcard
                   then Some (Inr (h2, this\<lparr>source := c\<rparr>))
                   else
                     (case h_create h2 (if firstIsWildcard then HRef c else HRef e) of
                        Inl err \<Rightarrow> Some (Inl err)
                      | Inr filtered \<Rightarrow>
                          (case filter_globs fuel h2 this filtered
                                  (if firstIsWildcard then tl globs else globs) of
                             None \<Rightarrow> None
                           | Some (Inl err) \<Rightarrow> Some (Inl err)
                           | Some (Inr h3) \<Rightarrow>
                               Some (Inr (h3, this\<lparr>source := source filtered\<rparr>)))))
              | _ \<Rightarrow> None)))"

section \<open>Notions of the specification\<close>




text \<open>
  The Notes that \<open>covers\<close> compares, in the words of the specification. Of a glob
  string: the Notes of the string trimmed, without its negation mark and without its
  trailing wildcards (so \<open>!a.*\<close> has the one Note \<open>a\<close>). Of an instance: the Notes it
  carries. Of an inspection result: the Notes of its absolute glob as it stands,
  trailing wildcards included. An argument is negated by its mark or by its flag. A glob
  string is valid when its normalised form passes the validator, an inspection result
  when its absolute glob does.
\<close>

definition pattern_notes :: "string \<Rightarrow> string list" where
  "pattern_notes g = match_all True False (strip_wildcard_trail (strip_bang (trim g)))"

fun arg_notes :: "glob_arg \<Rightarrow> string list" where
  "arg_notes (GStr s) = pattern_notes s"
| "arg_notes (GObj g) = gnotes g"
| "arg_notes (GIns i) = match_all True False (strip_bang (absGlob i))"

fun arg_negated :: "glob_arg \<Rightarrow> bool" where
  "arg_negated (GStr s) = has_bang (trim s)"
| "arg_negated (GObj g) = isNegated g"
| "arg_negated (GIns i) = isNegated i"

fun arg_valid :: "glob_arg \<Rightarrow> bool" where
  "arg_valid (GStr s) = Glob_isValid (normalizeGlobStr s)"
| "arg_valid (GObj g) = True"
| "arg_valid (GIns i) = Glob_isValid (absGlob i)"

text \<open>
  The reading of a path in the words of the specification, on the tree itself. The own
  member that a normalised Note names: the value at a key of a map, the item at an
  index of a list. The value of a path: where its Notes lead, each one naming an own
  member of the level before. The resolved parent of a path: the deepest level that its
  Notes reach.
\<close>

fun own_member :: "jsval \<Rightarrow> nnote \<Rightarrow> jsval option" where
  "own_member (Obj kvs) (NKey k) = map_of kvs k"
| "own_member (Arr xs) (NIdx i) = (if i < length xs then Some (xs ! i) else None)"
| "own_member t n = None"

fun path_value :: "nnote list \<Rightarrow> jsval \<Rightarrow> jsval option" where
  "path_value [] t = Some t"
| "path_value (m # ms) t =
     (case own_member t m of None \<Rightarrow> None | Some c \<Rightarrow> path_value ms c)"

fun path_parent :: "nnote list \<Rightarrow> jsval \<Rightarrow> jsval" where
  "path_parent [] t = t"
| "path_parent (m # ms) t =
     (case own_member t m of None \<Rightarrow> t | Some c \<Rightarrow> path_parent ms c)"

text \<open>The same two notions as the loop of \<open>inspectGet\<close> computes them.\<close>

fun resolved_parent :: "string list \<Rightarrow> jsval \<Rightarrow> jsval" where
  "resolved_parent [] t = t"
| "resolved_parent (n # rest) t =
     (case normalizeNote n of
        Inl e \<Rightarrow> t
      | Inr m \<Rightarrow> if hasOwn t m then resolved_parent rest (member t m) else t)"

fun is_Obj :: "jsval \<Rightarrow> bool" where
  "is_Obj (Obj kvs) = True"
| "is_Obj v = False"

text \<open>
  What a list of patterns selects, in the match semantics of the filter pipeline: the
  patterns apply in ascending priority and a later one overrides, so a path is selected
  when the last pattern that covers it, in the order of \<open>compare\<close>, is not negated.
\<close>

fun covering :: "string list \<Rightarrow> string \<Rightarrow> error + string list" where
  "covering [] p = Inr []"
| "covering (g # gs) p =
     bindE (Glob_covers (GStr g) (GStr p)) (\<lambda>c.
     bindE (covering gs p) (\<lambda>cs. Inr (if c then g # cs else cs)))"

definition selects :: "string list \<Rightarrow> string \<Rightarrow> error + bool" where
  "selects globs p =
     bindE (Glob_sort globs) (\<lambda>ordered.
     bindE (covering ordered p) (\<lambda>cs. Inr (cs \<noteq> [] \<and> \<not> has_bang (last cs))))"


text \<open>
  The value a list of Notes leads to in a tree, when every Note is an own member of the
  level before it.
\<close>

fun lookup :: "string list \<Rightarrow> jsval \<Rightarrow> error + jsval option" where
  "lookup [] t = Inr (Some t)"
| "lookup (n # rest) t =
     bindE (normalizeNote n) (\<lambda>m. if hasOwn t m then lookup rest (member t m) else Inr None)"

text \<open>
  A Note whose write makes an own member: a key other than \<open>__proto__\<close>, or an index
  of a list. A path of such Notes.
\<close>

fun member_note :: "nnote \<Rightarrow> bool" where
  "member_note (NKey k) = (k \<noteq> ''__proto__'')"
| "member_note (NIdx i) = is_array_index i"

definition member_path :: "string list \<Rightarrow> bool" where
  "member_path ns =
     list_all (\<lambda>n. case normalizeNote n of Inl e \<Rightarrow> True | Inr m \<Rightarrow> member_note m) ns"

text \<open>Some index Note of the path addresses a map of the tree.\<close>

fun index_on_map :: "string list \<Rightarrow> jsval \<Rightarrow> bool" where
  "index_on_map [] t = False"
| "index_on_map (n # rest) t =
     (case normalizeNote n of
        Inl e \<Rightarrow> False
      | Inr m \<Rightarrow> (is_NIdx m \<and> is_Obj t) \<or> (hasOwn t m \<and> index_on_map rest (member t m)))"

text \<open>The index Note of a number, as the deep walk writes it.\<close>

definition idx_note :: "nat \<Rightarrow> string" where
  "idx_note i = ''['' @ show_nat i @ '']''"

text \<open>
  The leaves of a tree with the Notes that lead to them, in the order of the deep walk
  (a list from its first item).
\<close>

fun leaf_notes :: "jsval \<Rightarrow> (string list \<times> jsval) list"
  and prop_leaves :: "(string \<times> jsval) list \<Rightarrow> (string list \<times> jsval) list"
  and item_leaves :: "nat \<Rightarrow> jsval list \<Rightarrow> (string list \<times> jsval) list" where
  "leaf_notes (Obj kvs) = prop_leaves kvs"
| "leaf_notes (Arr xs) = item_leaves 0 xs"
| "leaf_notes Undefined = []"
| "leaf_notes Null = []"
| "leaf_notes (Bool b) = []"
| "leaf_notes (Num n) = []"
| "leaf_notes (Str s) = []"
| "prop_leaves [] = []"
| "prop_leaves (kv # kvs) =
     (if isCollection (snd kv) then map (\<lambda>l. (fst kv # fst l, snd l)) (leaf_notes (snd kv))
      else [([fst kv], snd kv)])
     @ prop_leaves kvs"
| "item_leaves i [] = []"
| "item_leaves i (v # vs) =
     (if isCollection v then map (\<lambda>l. (idx_note i # fst l, snd l)) (leaf_notes v)
      else [([idx_note i], v)])
     @ item_leaves (Suc i) vs"

text \<open>
  A plain tree: its maps and lists are not empty, and the keys of a map are plain
  identifiers, each once.
\<close>

fun plain :: "jsval \<Rightarrow> bool"
  and plain_props :: "(string \<times> jsval) list \<Rightarrow> bool"
  and plain_items :: "jsval list \<Rightarrow> bool" where
  "plain (Obj kvs) = (kvs \<noteq> [] \<and> distinct (map fst kvs) \<and> plain_props kvs)"
| "plain (Arr xs) = (xs \<noteq> [] \<and> plain_items xs)"
| "plain Undefined = True"
| "plain Null = True"
| "plain (Bool b) = True"
| "plain (Num n) = True"
| "plain (Str s) = True"
| "plain_props [] = True"
| "plain_props (kv # kvs) = (re_VAR (fst kv) \<and> plain (snd kv) \<and> plain_props kvs)"
| "plain_items [] = True"
| "plain_items (v # vs) = (plain v \<and> plain_items vs)"

text \<open>
  Every list of the tree has at most \<open>2^32 - 1\<close> items, as every list of the program
  has.
\<close>

fun short_lists :: "jsval \<Rightarrow> bool"
  and short_props :: "(string \<times> jsval) list \<Rightarrow> bool"
  and short_items :: "jsval list \<Rightarrow> bool" where
  "short_lists (Obj kvs) = short_props kvs"
| "short_lists (Arr xs) = (int (length xs) \<le> 4294967295 \<and> short_items xs)"
| "short_lists Undefined = True"
| "short_lists Null = True"
| "short_lists (Bool b) = True"
| "short_lists (Num n) = True"
| "short_lists (Str s) = True"
| "short_props [] = True"
| "short_props (kv # kvs) = (short_lists (snd kv) \<and> short_props kvs)"
| "short_items [] = True"
| "short_items (v # vs) = (short_lists v \<and> short_items vs)"

text \<open>Setting a list of leaves, one after the other, in the overwrite mode.\<close>

fun set_all :: "(string list \<times> jsval) list \<Rightarrow> jsval \<Rightarrow> error + jsval" where
  "set_all [] t = Inr t"
| "set_all (l # ls) t = bindE (set_each (snd l) Overwrite (fst l) t) (set_all ls)"

text \<open>The Notes the deep walk of a plain tree writes: a plain identifier or an index Note.\<close>

definition walk_note :: "string \<Rightarrow> bool" where
  "walk_note n = (re_VAR n \<or> (\<exists>i. n = idx_note i))"

text \<open>What joining adds after a first Note: every further Note with its separator.\<close>

fun join_tail :: "string list \<Rightarrow> string" where
  "join_tail [] = []"
| "join_tail (n # ns) = (if hd n = CHR ''['' then [] else ''.'') @ n @ join_tail ns"

text \<open>A Note fits a level when it is a key on a map or an index on a list.\<close>

definition note_fits :: "jsval \<Rightarrow> nnote \<Rightarrow> bool" where
  "note_fits t m = ((is_Obj t \<and> \<not> is_NIdx m) \<or> (is_Arr t \<and> is_NIdx m))"

text \<open>The empty level that \<open>set\<close> creates for a child: a list for a list, else a map.\<close>

fun empty_like :: "jsval \<Rightarrow> jsval" where
  "empty_like (Arr xs) = Arr []"
| "empty_like v = Obj []"

text \<open>What \<open>flatten\<close> keeps of a visit of the walk: the notation and the value.\<close>

definition leaf_of :: "string \<times> string \<times> jsval \<Rightarrow> string \<times> jsval" where
  "leaf_of e = (fst e, snd (snd e))"

section \<open>Covering\<close>

lemma var_start_not_space: "is_var_start c \<Longrightarrow> \<not> is_space c"
  by (auto simp: is_var_start_def is_space_def)

lemma strip_wildcard_trail_dot:
  "ends_with s ''.*'' \<and> 2 < length s \<Longrightarrow>
   strip_wildcard_trail s = strip_wildcard_trail (slice_end s 2)"
  by (subst strip_wildcard_trail.simps) simp

lemma strip_wildcard_trail_bracket:
  "\<not> (ends_with s ''.*'' \<and> 2 < length s) \<Longrightarrow> ends_with s ''[*]'' \<and> 3 < length s \<Longrightarrow>
   strip_wildcard_trail s = strip_wildcard_trail (slice_end s 3)"
  by (subst strip_wildcard_trail.simps) simp

lemma strip_wildcard_trail_none:
  "\<not> (ends_with s ''.*'' \<and> 2 < length s) \<Longrightarrow> \<not> (ends_with s ''[*]'' \<and> 3 < length s) \<Longrightarrow>
   strip_wildcard_trail s = s"
  by (subst strip_wildcard_trail.simps) auto

lemma strip_wildcard_trail_hd:
  "s \<noteq> [] \<Longrightarrow> strip_wildcard_trail s \<noteq> [] \<and> hd (strip_wildcard_trail s) = hd s"
proof (induction s rule: strip_wildcard_trail.induct)
  case (1 s)
  show ?case
  proof (cases "ends_with s ''.*'' \<and> 2 < length s")
    case True
    then have ne: "slice_end s 2 \<noteq> []" and h: "hd (slice_end s 2) = hd s"
      by (auto simp: slice_end_def)
    from 1(1) [OF True ne] h show ?thesis
      unfolding strip_wildcard_trail_dot [OF True] by simp
  next
    case False
    note f1 = this
    show ?thesis
    proof (cases "ends_with s ''[*]'' \<and> 3 < length s")
      case True
      then have ne: "slice_end s 3 \<noteq> []" and h: "hd (slice_end s 3) = hd s"
        by (auto simp: slice_end_def)
      from 1(2) [OF f1 True ne] h show ?thesis
        unfolding strip_wildcard_trail_bracket [OF f1 True] by simp
    next
      case False
      from 1(3) show ?thesis unfolding strip_wildcard_trail_none [OF f1 False] by simp
    qed
  qed
qed

lemma strip_wildcard_trail_idem:
  "strip_wildcard_trail (strip_wildcard_trail s) = strip_wildcard_trail s"
proof (induction s rule: strip_wildcard_trail.induct)
  case (1 s)
  show ?case
  proof (cases "ends_with s ''.*'' \<and> 2 < length s")
    case True
    from 1(1) [OF True] show ?thesis unfolding strip_wildcard_trail_dot [OF True] .
  next
    case False
    note f1 = this
    show ?thesis
    proof (cases "ends_with s ''[*]'' \<and> 3 < length s")
      case True
      from 1(2) [OF f1 True] show ?thesis unfolding strip_wildcard_trail_bracket [OF f1 True] .
    next
      case False
      have e: "strip_wildcard_trail s = s" by (rule strip_wildcard_trail_none [OF f1 False])
      show ?thesis by (simp only: e)
    qed
  qed
qed

lemma trim_id: "s \<noteq> [] \<Longrightarrow> \<not> is_space (hd s) \<Longrightarrow> \<not> is_space (last s) \<Longrightarrow> trim s = s"
proof -
  assume s: "s \<noteq> []" and h: "\<not> is_space (hd s)" and l: "\<not> is_space (last s)"
  from s h have 1: "dropWhile is_space s = s" by (cases s) auto
  from s l have "\<not> is_space (hd (rev s))" by (simp add: hd_rev)
  with s have 2: "dropWhile is_space (rev s) = rev s" by (cases "rev s") auto
  from 1 2 show ?thesis by (simp add: trim_def)
qed

lemma strip_bang_id: "s = [] \<or> hd s \<noteq> CHR ''!'' \<Longrightarrow> strip_bang s = s"
  by (cases s) auto

lemma quoted_rests_split:
  "r \<in> set (quoted_rests q s) \<Longrightarrow> \<exists>w. s = w @ q # CHR '']'' # r"
proof (induction q s rule: quoted_rests.induct)
  case (3 q c d r')
  from 3(2) consider "c = q" "d = CHR '']''" "r = r'"
    | "\<not> is_line_terminator c" "r \<in> set (quoted_rests q (d # r'))"
    by (auto split: if_splits)
  then show ?case
  proof cases
    case 1
    then have "c # d # r' = [] @ q # CHR '']'' # r" by simp
    then show ?thesis by blast
  next
    case 2
    from 3(1) [OF 2] obtain w where "d # r' = w @ q # CHR '']'' # r" by blast
    then have "c # d # r' = (c # w) @ q # CHR '']'' # r" by simp
    then show ?thesis by blast
  qed
qed simp_all

lemma close_rests_split: "r \<in> set (close_rests s) \<Longrightarrow> s = CHR '']'' # r"
  by (cases s) (auto split: if_splits)

lemma bracket_rests_split:
  "r \<in> set (bracket_rests star s) \<Longrightarrow> \<exists>p. s = p @ CHR '']'' # r \<and> hd s = CHR ''[''"
proof (induction star s rule: bracket_rests.induct)
  case (3 star b q cs)
  from 3 have b: "b = CHR ''[''" by (auto split: if_splits)
  from 3 consider "r \<in> set (close_rests (dropWhile is_digit cs))" | "r \<in> set (close_rests cs)"
    | "r \<in> set (quoted_rests q cs)"
    by (auto split: if_splits)
  then show ?case
  proof cases
    case 1
    then have "dropWhile is_digit cs = CHR '']'' # r" by (rule close_rests_split)
    then have "cs = takeWhile is_digit cs @ CHR '']'' # r"
      using takeWhile_dropWhile_id [of is_digit cs] by simp
    then have "b # q # cs = (b # q # takeWhile is_digit cs) @ CHR '']'' # r" by simp
    with b show ?thesis by (metis list.sel(1))
  next
    case 2
    then have "cs = CHR '']'' # r" by (rule close_rests_split)
    then have "b # q # cs = [b, q] @ CHR '']'' # r" by simp
    with b show ?thesis by (metis list.sel(1))
  next
    case 3
    from quoted_rests_split [OF this] obtain w where "cs = w @ q # CHR '']'' # r" by blast
    then have "b # q # cs = (b # q # w @ [q]) @ CHR '']'' # r" by simp
    with b show ?thesis by (metis list.sel(1))
  qed
qed simp_all

lemma var_char_not_space: "is_var_char c \<Longrightarrow> \<not> is_space c"
  by (auto simp: is_var_char_def is_var_start_def is_digit_def is_space_def)

lemma var_part_last:
  "is_var_start c \<Longrightarrow> \<not> is_space (last (c # takeWhile is_var_char cs))"
proof -
  assume c: "is_var_start c"
  show ?thesis
  proof (cases "takeWhile is_var_char cs = []")
    case True
    with c show ?thesis by (simp add: var_char_not_space is_var_char_def)
  next
    case False
    then have "last (takeWhile is_var_char cs) \<in> set (takeWhile is_var_char cs)" by simp
    then have "is_var_char (last (takeWhile is_var_char cs))" by (rule set_takeWhileD [THEN conjunct2])
    with False show ?thesis by (simp add: var_char_not_space)
  qed
qed

lemma bracket_not_space: "\<not> is_space (CHR '']'')" "\<not> is_space (CHR ''*'')"
  "\<not> is_space (CHR ''['')" "CHR ''['' \<noteq> CHR ''!''" "CHR ''*'' \<noteq> CHR ''!''"
  by (simp_all add: is_space_def)

lemma first_rests_split:
  assumes "r \<in> set (first_rests star u)"
  shows "\<exists>p. u = p @ r \<and> p \<noteq> [] \<and> \<not> is_space (last p) \<and> \<not> is_space (hd u)
           \<and> hd u \<noteq> CHR ''!''"
proof (cases "r \<in> set (bracket_rests star u)")
  case True
  from bracket_rests_split [OF this] obtain p where "u = (p @ '']'') @ r" "hd u = CHR ''[''"
    by auto
  then show ?thesis using bracket_not_space by (metis last_snoc snoc_eq_iff_butlast)
next
  case False
  with assms obtain c cs where u: "u = c # cs"
    and d: "(c = CHR ''*'' \<and> r = cs) \<or> (is_var_start c \<and> r = dropWhile is_var_char cs)"
    by (cases u) (auto simp: first_rests_def split: if_splits)
  from d show ?thesis
  proof
    assume "c = CHR ''*'' \<and> r = cs"
    with u have "u = ''*'' @ r" "hd u = CHR ''*''" by simp_all
    then show ?thesis using bracket_not_space by (metis last.simps list.distinct(1))
  next
    assume a: "is_var_start c \<and> r = dropWhile is_var_char cs"
    with u have "u = (c # takeWhile is_var_char cs) @ r" by simp
    moreover from a var_part_last [of c cs]
    have "\<not> is_space (last (c # takeWhile is_var_char cs))" by blast
    moreover from a u have "\<not> is_space (hd u)" "hd u \<noteq> CHR ''!''"
      by (auto simp: var_start_not_space is_var_start_def)
    ultimately show ?thesis by blast
  qed
qed

lemma follow_rests_split:
  assumes "r \<in> set (follow_rests star u)"
  shows "\<exists>p. u = p @ r \<and> p \<noteq> [] \<and> \<not> is_space (last p)"
proof (cases "r \<in> set (bracket_rests star u)")
  case True
  from bracket_rests_split [OF this] obtain p where "u = (p @ '']'') @ r" by auto
  then show ?thesis using bracket_not_space by (metis last_snoc snoc_eq_iff_butlast)
next
  case False
  with assms obtain d c cs' where u: "u = d # c # cs'"
    and x: "(is_var_start c \<and> r = dropWhile is_var_char cs') \<or> (c = CHR ''*'' \<and> r = cs')"
    by (cases u; cases "tl u") (auto simp: follow_rests_def split: if_splits)
  from x show ?thesis
  proof
    assume a: "is_var_start c \<and> r = dropWhile is_var_char cs'"
    with u have "u = (d # c # takeWhile is_var_char cs') @ r" by simp
    moreover from a have "\<not> is_space (last (d # c # takeWhile is_var_char cs'))"
      using var_part_last [of c cs'] by simp
    ultimately show ?thesis by blast
  next
    assume "c = CHR ''*'' \<and> r = cs'"
    with u have "u = [d, CHR ''*''] @ r" by simp
    then show ?thesis using bracket_not_space by (metis last.simps list.distinct(1))
  qed
qed

lemma valid_tail_last: "valid_tail star r \<Longrightarrow> r \<noteq> [] \<Longrightarrow> \<not> is_space (last r)"
proof (induction "length r" arbitrary: r rule: less_induct)
  case less
  from less.prems obtain x where x: "x \<in> set (follow_rests star r)" and v: "valid_tail star x"
    by (subst (asm) valid_tail.simps) (auto simp: list_ex_iff)
  from follow_rests_split [OF x] obtain p where p: "r = p @ x" "p \<noteq> []" "\<not> is_space (last p)"
    by blast
  show ?case
  proof (cases "x = []")
    case True
    with p show ?thesis by simp
  next
    case False
    from p have "length x < length r" by simp
    from less.hyps [OF this v False] p False show ?thesis by simp
  qed
qed

lemma Glob_isValid_ends:
  assumes "Glob_isValid s"
  shows "s \<noteq> []" "\<not> is_space (hd (strip_bang s))" "hd (strip_bang s) \<noteq> CHR ''!''"
    "strip_bang s \<noteq> []" "\<not> is_space (last s)"
proof -
  from assms obtain r where r: "r \<in> set (first_rests True (strip_bang s))" and v: "valid_tail True r"
    by (auto simp: Glob_isValid_def list_ex_iff)
  from first_rests_split [OF r] obtain p where p: "strip_bang s = p @ r" "p \<noteq> []"
    "\<not> is_space (last p)" "\<not> is_space (hd (strip_bang s))" "hd (strip_bang s) \<noteq> CHR ''!''"
    by blast
  from p show u: "strip_bang s \<noteq> []" by simp
  then show "s \<noteq> []" by auto
  from p show "\<not> is_space (hd (strip_bang s))" "hd (strip_bang s) \<noteq> CHR ''!''" by simp_all
  have "\<not> is_space (last (strip_bang s))"
  proof (cases "r = []")
    case True
    with p show ?thesis by simp
  next
    case False
    with valid_tail_last [OF v False] p show ?thesis by simp
  qed
  moreover from u have "last s = last (strip_bang s)" by (cases s) (auto split: if_splits)
  ultimately show "\<not> is_space (last s)" by simp
qed

lemma Glob_isValid_abs: "Glob_isValid (CHR ''!'' # a) \<Longrightarrow> Glob_isValid a"
proof -
  assume v: "Glob_isValid (CHR ''!'' # a)"
  from Glob_isValid_ends(3,4) [OF v] have "a \<noteq> []" "hd a \<noteq> CHR ''!''" by simp_all
  then have "strip_bang a = a" by (simp add: strip_bang_id)
  with v show ?thesis by (simp add: Glob_isValid_def)
qed

lemma Glob_create_notes:
  assumes "Glob_isValid (normalizeGlobStr g)"
  shows "\<exists>G. Glob_create g = Inr G \<and> gnotes G = pattern_notes g
    \<and> isNegated G = has_bang (trim g)"
proof (cases "has_bang (trim g)")
  case True
  then obtain a where t: "trim g = CHR ''!'' # a" by (cases "trim g") (auto simp: has_bang_def)
  then have n: "normalizeGlobStr g = CHR ''!'' # a"
    by (simp add: normalizeGlobStr_def removeTrailingWildcards_def)
  with assms have v: "Glob_isValid (CHR ''!'' # a)" by simp
  then have va: "Glob_isValid a" by (rule Glob_isValid_abs)
  from Glob_isValid_ends(3,4,2) [OF v] have a: "a \<noteq> []" "hd a \<noteq> CHR ''!''" "\<not> is_space (hd a)"
    by simp_all
  from Glob_isValid_ends(5) [OF va] have "\<not> is_space (last a)" .
  with a have ta: "trim a = a" by (simp add: trim_id)
  from a have "normalizeGlobStr a = strip_wildcard_trail a"
    by (simp add: normalizeGlobStr_def removeTrailingWildcards_def ta)
  moreover from strip_wildcard_trail_hd [OF a(1)] a(2)
  have "strip_bang (strip_wildcard_trail a) = strip_wildcard_trail a"
    by (simp add: strip_bang_id)
  ultimately have s: "Glob_split a True = Inr (match_all True False (strip_wildcard_trail a))"
    using va by (simp add: Glob_split_def)
  from n v have i: "Glob_inspect g = Inr \<lparr>glob = CHR ''!'' # a, absGlob = a, isNegated = True\<rparr>"
    by (simp add: Glob_inspect_def Let_def)
  from t have "pattern_notes g = match_all True False (strip_wildcard_trail a)"
    by (simp add: pattern_notes_def)
  with i s True show ?thesis by (simp add: Glob_create_def)
next
  case False
  define a where "a = strip_wildcard_trail (trim g)"
  from False have n: "normalizeGlobStr g = a"
    by (auto simp: normalizeGlobStr_def removeTrailingWildcards_def has_bang_def a_def)
  with assms have va: "Glob_isValid a" by simp
  from Glob_isValid_ends(1) [OF va] have ane: "a \<noteq> []" .
  have tne: "trim g \<noteq> []"
  proof
    assume "trim g = []"
    then have "a = []" unfolding a_def by (subst strip_wildcard_trail.simps) (simp add: ends_with_def)
    with ane show False by simp
  qed
  from strip_wildcard_trail_hd [OF tne] have h: "hd a = hd (trim g)" by (simp add: a_def)
  with False tne have nb: "hd a \<noteq> CHR ''!''" by (simp add: has_bang_def)
  with ane have sb: "strip_bang a = a" by (simp add: strip_bang_id)
  from Glob_isValid_ends(2,5) [OF va] sb have "\<not> is_space (hd a)" "\<not> is_space (last a)" by simp_all
  with ane have ta: "trim a = a" by (simp add: trim_id)
  have "strip_wildcard_trail a = a" unfolding a_def by (rule strip_wildcard_trail_idem)
  with ane nb have "normalizeGlobStr a = a"
    by (simp add: normalizeGlobStr_def removeTrailingWildcards_def ta)
  with va sb have s: "Glob_split a True = Inr (match_all True False a)"
    by (simp add: Glob_split_def)
  from n va ane nb have i: "Glob_inspect g = Inr \<lparr>glob = a, absGlob = a, isNegated = False\<rparr>"
    by (simp add: Glob_inspect_def Let_def)
  from False tne have "strip_bang (trim g) = trim g" by (simp add: strip_bang_id has_bang_def)
  then have "pattern_notes g = match_all True False a" by (simp add: pattern_notes_def a_def)
  with i s False show ?thesis by (simp add: Glob_create_def)
qed

lemma covers_arg_notes: "arg_valid a \<Longrightarrow> covers_arg a = Inr (arg_negated a, arg_notes a)"
proof (cases a)
  case (GStr s)
  assume "arg_valid a"
  with GStr have "Glob_isValid (normalizeGlobStr s)" by simp
  from Glob_create_notes [OF this] GStr show ?thesis by auto
next
  case (GIns i)
  assume "arg_valid a"
  with GIns show ?thesis by (simp add: Glob_split_def)
next
  case (GObj g)
  then show ?thesis by simp
qed

text \<open>
  Claim C2, as the code has it: a valid negated pattern covers no valid target that has
  fewer Notes than the pattern itself, the Notes being those that \<open>covers\<close> compares.
  (The claim states this for a target with more Notes.)
\<close>

theorem covers_negated_longer:
  assumes "arg_valid g" "arg_valid t" "arg_negated g"
    "length (arg_notes t) < length (arg_notes g)"
  shows "Glob_covers g t = Inr False"
  using assms by (simp add: Glob_covers_def covers_arg_notes)

text \<open>
  The negated pattern \<open>!a.b\<close> does not cover the shorter target \<open>a\<close>; and the
  inspection of \<open>!x.*.*\<close>, with three Notes, does not cover that of \<open>x.*\<close>, which has
  the one Note \<open>x\<close>.
\<close>

theorem covers_negated_longer_witness:
  "Glob_covers (GStr ''!a.b'') (GStr ''a'') = Inr False \<and>
   Glob_covers (GIns \<lparr>glob = ''!x.*.*'', absGlob = ''x.*.*'', isNegated = True\<rparr>)
     (GIns \<lparr>glob = ''x'', absGlob = ''x'', isNegated = False\<rparr>) = Inr False"
proof -
  let ?i = "GIns \<lparr>glob = ''!x.*.*'', absGlob = ''x.*.*'', isNegated = True\<rparr>"
  let ?j = "GIns \<lparr>glob = ''x'', absGlob = ''x'', isNegated = False\<rparr>"
  have 1: "arg_valid (GStr ''!a.b'')" by code_simp
  have 2: "arg_valid (GStr ''a'')" by code_simp
  have 3: "arg_negated (GStr ''!a.b'')" by code_simp
  have 4: "length (arg_notes (GStr ''a'')) < length (arg_notes (GStr ''!a.b''))" by code_simp
  have 5: "arg_valid ?i" by code_simp
  have 6: "arg_valid ?j" by code_simp
  have 7: "arg_negated ?i" by code_simp
  have 8: "length (arg_notes ?j) < length (arg_notes ?i)" by code_simp
  show ?thesis
    using covers_negated_longer [OF 1 2 3 4] covers_negated_longer [OF 5 6 7 8] by simp
qed

text \<open>
  Claim C2 as stated fails: the negated pattern \<open>!a\<close> has one Note, the target \<open>a.b\<close>
  has two, and \<open>covers\<close> answers true.
\<close>

theorem covers_negated_deeper_counterexample:
  "arg_valid (GStr ''!a'') \<and> arg_negated (GStr ''!a'') \<and> arg_notes (GStr ''!a'') = [''a''] \<and>
   arg_valid (GStr ''a.b'') \<and> arg_notes (GStr ''a.b'') = [''a'', ''b''] \<and>
   Glob_covers (GStr ''!a'') (GStr ''a.b'') = Inr True"
  by code_simp

section \<open>Priority order\<close>

lemma str_less_irrefl: "\<not> str_less s s"
  by (induction s) auto





section \<open>Normalisation\<close>

lemma array_sort_single: "array_sort cmp [x] = Inr [x]"
  by (simp add: array_sort_def)

text \<open>
  Claim C9: \<open>normalize\<close> of a list whose only element is a negated glob, whichever it
  is, is the empty list.
\<close>

theorem normalize_single_negated:
  "Glob_inspect g = Inr i \<Longrightarrow> isNegated i \<Longrightarrow> Glob_normalize [g] = Inr []"
  by (simp add: Glob_normalize_def array_sort_single)

text \<open>The negated glob \<open>!a.b\<close> alone normalises to the empty list.\<close>

theorem normalize_single_negated_witness: "Glob_normalize [''!a.b''] = Inr []"
proof -
  have 1: "Glob_inspect ''!a.b'' = Inr \<lparr>glob = ''!a.b'', absGlob = ''a.b'', isNegated = True\<rparr>"
    by code_simp
  show ?thesis using normalize_single_negated [OF 1] by simp
qed

section \<open>Reading a path\<close>

lemma inspectGet_each_absent:
  "inspectGet_each notation ns idx lvl par res = Inr (p, r) \<Longrightarrow>
   r_has res \<or> r_value res = Undefined \<Longrightarrow> \<not> r_has r \<Longrightarrow> r_value r = Undefined"
proof (induction ns arbitrary: idx lvl par res)
  case Nil
  then show ?case by auto
next
  case (Cons n ns)
  from Cons.prems(1) obtain m where m: "normalizeNote n = Inr m"
    by (auto simp: bindE_eq_Inr)
  show ?case
  proof (cases "hasOwn lvl m")
    case True
    let ?res = "\<lparr>r_notation = Some notation, r_has = True, r_value = member lvl m,
        r_type = Some (js_type (member lvl m)), r_level = Some (idx + 1), r_lastNote = Some n,
        r_lastNoteNormalized = Some m, r_parentIsArray = False\<rparr>"
    from Cons.prems(1) m True
    have "inspectGet_each notation ns (idx + 1) (member lvl m) (member lvl m) ?res = Inr (p, r)"
      by (simp add: Let_def)
    then show ?thesis by (rule Cons.IH [OF _ _ Cons.prems(3)]) simp
  next
    case False
    with Cons.prems(1) m show ?thesis by auto
  qed
qed

lemma tree_inspectGet_absent:
  assumes "tree_inspectGet src p = Inr res" "\<not> r_has res"
  shows "r_value res = Undefined"
proof -
  from assms(1) obtain ns par r0 where e: "inspectGet_each p ns 0 src Undefined inspect_init = Inr (par, r0)"
    and r: "res = r0\<lparr>r_parentIsArray := (js_type (if par = Undefined \<or> (r_has r0 \<and> par = r_value r0) then src else par) = ''array'')\<rparr>"
    by (auto simp: tree_inspectGet_def bindE_eq_Inr Let_def)
  from assms(2) r have "\<not> r_has r0" by simp
  from e have "r_value r0 = Undefined"
    using \<open>\<not> r_has r0\<close> by (auto intro: inspectGet_each_absent simp: inspect_init_def)
  with r show ?thesis by simp
qed

text \<open>
  Claim C10: an inspection that does not find the path carries the value \<open>undefined\<close>;
  so \<open>hasDefined\<close> is \<open>has\<close> together with a value that is not \<open>undefined\<close>, and
  \<open>hasDefined\<close> implies \<open>has\<close>.
\<close>

theorem hasDefined_has:
  assumes "Notation_inspectGet st this p = Inr res"
  shows "(\<not> r_has res \<longrightarrow> r_value res = Undefined)
       \<and> Notation_has st this p = Inr (r_has res)
       \<and> Notation_hasDefined st this p = Inr (r_has res \<and> r_value res \<noteq> Undefined)
       \<and> (Notation_hasDefined st this p = Inr True \<longrightarrow> Notation_has st this p = Inr True)"
proof -
  from assms have a: "\<not> r_has res \<longrightarrow> r_value res = Undefined"
    by (auto simp: Notation_inspectGet_def dest: tree_inspectGet_absent)
  with assms show ?thesis
    by (auto simp: Notation_has_def Notation_hasDefined_def)
qed

text \<open>A member that is present with the value \<open>undefined\<close>: \<open>has\<close> but not \<open>hasDefined\<close>.\<close>

theorem hasDefined_has_witness:
  "Notation_has [Obj [(''a'', Undefined)]]
     \<lparr>source = 0, isArray = False, options = DEFAULT_OPTS\<rparr> ''a'' = Inr True \<and>
   Notation_hasDefined [Obj [(''a'', Undefined)]]
     \<lparr>source = 0, isArray = False, options = DEFAULT_OPTS\<rparr> ''a'' = Inr False"
proof -
  have 1: "Notation_inspectGet [Obj [(''a'', Undefined)]]
      \<lparr>source = 0, isArray = False, options = DEFAULT_OPTS\<rparr> ''a'' =
    Inr \<lparr>r_notation = Some ''a'', r_has = True, r_value = Undefined,
         r_type = Some ''undefined'', r_level = Some 1, r_lastNote = Some ''a'',
         r_lastNoteNormalized = Some (NKey ''a''), r_parentIsArray = False\<rparr>"
    by code_simp
  show ?thesis using hasDefined_has [OF 1] by simp
qed

lemma inspectGet_each_parent:
  "inspectGet_each notation ns idx lvl par res = Inr (p, r) \<Longrightarrow> \<not> r_has r \<Longrightarrow> r_has res \<Longrightarrow>
   par = lvl \<Longrightarrow> p = resolved_parent ns lvl"
proof (induction ns arbitrary: idx lvl par res)
  case Nil
  then show ?case by simp
next
  case (Cons n ns)
  from Cons.prems(1) obtain m where m: "normalizeNote n = Inr m"
    by (auto simp: bindE_eq_Inr)
  show ?case
  proof (cases "hasOwn lvl m")
    case True
    let ?res = "\<lparr>r_notation = Some notation, r_has = True, r_value = member lvl m,
        r_type = Some (js_type (member lvl m)), r_level = Some (idx + 1), r_lastNote = Some n,
        r_lastNoteNormalized = Some m, r_parentIsArray = False\<rparr>"
    from Cons.prems(1) m True
    have "inspectGet_each notation ns (idx + 1) (member lvl m) (member lvl m) ?res = Inr (p, r)"
      by (simp add: Let_def)
    then have "p = resolved_parent ns (member lvl m)"
      by (rule Cons.IH [OF _ Cons.prems(2)]) simp_all
    with m True show ?thesis by simp
  next
    case False
    with Cons.prems m show ?thesis by auto
  qed
qed

lemma tree_inspectGet_parent:
  assumes "tree_inspectGet src p = Inr res" "Notation_split p = Inr ns" "\<not> r_has res"
    "isCollection (resolved_parent ns src)"
  shows "r_parentIsArray res = is_Arr (resolved_parent ns src)"
proof -
  from assms(1,2) obtain par r0 where e: "inspectGet_each p ns 0 src Undefined inspect_init = Inr (par, r0)"
    and r: "res = r0\<lparr>r_parentIsArray := (js_type (if par = Undefined \<or> (r_has r0 \<and> par = r_value r0) then src else par) = ''array'')\<rparr>"
    by (auto simp: tree_inspectGet_def bindE_eq_Inr Let_def)
  from assms(3) r have nh: "\<not> r_has r0" by simp
  have "(if par = Undefined then src else par) = resolved_parent ns src"
  proof (cases ns)
    case Nil
    with e nh show ?thesis by (simp add: inspect_init_def)
  next
    case (Cons n rest)
    show ?thesis
    proof (cases "normalizeNote n")
      case (Inl x)
      with e Cons show ?thesis by simp
    next
      case (Inr m)
      show ?thesis
      proof (cases "hasOwn src m")
        case True
        with e Cons Inr nh have "par = resolved_parent rest (member src m)"
          by (auto simp: Let_def intro: inspectGet_each_parent)
        moreover from Cons Inr True have "resolved_parent ns src = resolved_parent rest (member src m)"
          by simp
        ultimately show ?thesis using assms(4) by (cases par) auto
      next
        case False
        with e Cons Inr show ?thesis by auto
      qed
    qed
  qed
  with r nh assms(4) show ?thesis
    by (cases "resolved_parent ns src") auto
qed

lemma quoted_rests_match:
  "\<not> is_line_terminator q \<Longrightarrow> quoted_rests q s \<noteq> [] \<Longrightarrow> match_quoted q s \<noteq> None"
  by (induction q s rule: quoted_rests.induct) (auto split: if_splits option.splits)

lemma close_rests_Cons: "close_rests s \<noteq> [] \<Longrightarrow> \<exists>r. s = CHR '']'' # r"
  by (cases s) (auto split: if_splits)

lemma bracket_rests_match:
  "bracket_rests False s \<noteq> [] \<Longrightarrow> match_bracket False True s \<noteq> None"
proof (induction "False" s rule: bracket_rests.induct)
  case (3 b q cs)
  then have b: "b = CHR ''[''" by (auto split: if_splits)
  show ?case
  proof (cases "is_digit q")
    case True
    then have nq: "q \<noteq> dquote" "q \<noteq> squote" by (auto simp: is_digit_def)
    with 3 b True have "close_rests (dropWhile is_digit cs) \<noteq> []" by (auto split: if_splits)
    then obtain r where "dropWhile is_digit cs = CHR '']'' # r" by (auto dest: close_rests_Cons)
    with b True show ?thesis by (simp add: match_bracket_def)
  next
    case False
    with 3 b have q: "q = dquote \<or> q = squote" and "quoted_rests q cs \<noteq> []"
      by (auto split: if_splits)
    moreover from q have "\<not> is_line_terminator q" by (auto simp: is_line_terminator_def)
    ultimately have "match_quoted q cs \<noteq> None" using quoted_rests_match [of q cs] by blast
    with b False q show ?thesis by (auto simp: match_bracket_def)
  qed
qed simp_all

lemma Notation_split_nonempty: "Notation_split p = Inr ns \<Longrightarrow> ns \<noteq> []"
proof -
  assume a: "Notation_split p = Inr ns"
  then have v: "Notation_isValid p" and ns: "ns = match_all False True p"
    by (auto simp: Notation_split_def split: if_splits)
  from v have fr: "first_rests False p \<noteq> []" by (auto simp: Notation_isValid_def)
  then obtain c cs where p: "p = c # cs" by (cases p) (auto simp: first_rests_def)
  have "match_note False True p \<noteq> None"
  proof (cases "bracket_rests False p \<noteq> []")
    case True
    then have "match_bracket False True p \<noteq> None" by (rule bracket_rests_match)
    then show ?thesis by (auto simp: match_note_def)
  next
    case False
    with fr p have "is_var_start c" by (auto simp: first_rests_def split: if_splits)
    with p show ?thesis by (auto simp: match_note_def split: option.splits)
  qed
  with p ns show ?thesis by (auto split: option.splits)
qed


lemma inspectGet_each_lookup:
  "inspectGet_each notation ns idx t par res = Inr (pp, r) \<Longrightarrow> ns \<noteq> [] \<Longrightarrow>
   lookup ns t = Inr (if r_has r then Some (r_value r) else None)"
proof (induction ns arbitrary: idx t par res)
  case Nil
  then show ?case by simp
next
  case (Cons n ns)
  from Cons.prems(1) obtain m where m: "normalizeNote n = Inr m"
    by (auto simp: bindE_eq_Inr)
  show ?case
  proof (cases "hasOwn t m")
    case True
    let ?res = "\<lparr>r_notation = Some notation, r_has = True, r_value = member t m,
        r_type = Some (js_type (member t m)), r_level = Some (idx + 1), r_lastNote = Some n,
        r_lastNoteNormalized = Some m, r_parentIsArray = False\<rparr>"
    from Cons.prems(1) m True
    have e: "inspectGet_each notation ns (idx + 1) (member t m) (member t m) ?res = Inr (pp, r)"
      by (simp add: Let_def)
    show ?thesis
    proof (cases ns)
      case Nil
      with e m True show ?thesis by auto
    next
      case (Cons a list)
      then have "ns \<noteq> []" by simp
      with e have "lookup ns (member t m) = Inr (if r_has r then Some (r_value r) else None)"
        by (rule Cons.IH)
      with m True show ?thesis by simp
    qed
  next
    case False
    with Cons.prems(1) m show ?thesis by auto
  qed
qed

lemma lookup_inspectGet_each:
  "lookup ns t = Inr x \<Longrightarrow> ns \<noteq> [] \<Longrightarrow>
   \<exists>pp r. inspectGet_each notation ns idx t par res = Inr (pp, r)
     \<and> x = (if r_has r then Some (r_value r) else None)"
proof (induction ns arbitrary: idx t par res)
  case Nil
  then show ?case by simp
next
  case (Cons n ns)
  from Cons.prems(1) obtain m where m: "normalizeNote n = Inr m"
    by (auto simp: bindE_eq_Inr)
  show ?case
  proof (cases "hasOwn t m")
    case True
    with Cons.prems(1) m have l: "lookup ns (member t m) = Inr x" by simp
    show ?thesis
    proof (cases ns)
      case Nil
      with l m True show ?thesis by (auto simp: Let_def)
    next
      case (Cons a list)
      then have "ns \<noteq> []" by simp
      from Cons.IH [OF l this] m True show ?thesis by (simp add: Let_def)
    qed
  next
    case False
    with Cons.prems(1) m show ?thesis by auto
  qed
qed

lemma tree_get_lookup:
  assumes "Notation_split p = Inr ns" "lookup ns src = Inr x"
  shows "tree_get strct src p (Some d) = Inr (case x of None \<Rightarrow> d | Some y \<Rightarrow> y)"
    and "x = Some y \<Longrightarrow> tree_get strct src p dflt = Inr y"
proof -
  from assms(1) have ne: "ns \<noteq> []" by (rule Notation_split_nonempty)
  from lookup_inspectGet_each [OF assms(2) ne, of p 0 Undefined inspect_init]
  obtain pp r where e: "inspectGet_each p ns 0 src Undefined inspect_init = Inr (pp, r)"
    and x: "x = (if r_has r then Some (r_value r) else None)" by blast
  from assms(1) e x show "tree_get strct src p (Some d) = Inr (case x of None \<Rightarrow> d | Some y \<Rightarrow> y)"
    by (simp add: tree_get_def tree_inspectGet_def Let_def)
  assume "x = Some y"
  with assms(1) e x show "tree_get strct src p dflt = Inr y"
    by (simp add: tree_get_def tree_inspectGet_def Let_def split: if_splits)
qed

lemma key_in_iff: "k \<in> fst ` set kvs \<longleftrightarrow> map_of kvs k \<noteq> None"
  by (simp add: map_of_eq_None_iff)

lemma own_member_hasOwn:
  "own_member t m = (if hasOwn t m then Some (member t m) else None)"
proof (cases "(t, m)" rule: own_member.cases)
  case (1 kvs k)
  then show ?thesis by (cases "map_of kvs k") (auto simp: key_in_iff obj_get_def)
qed auto

lemma lookup_path_value:
  "map normalizeNote ns = map Inr ms \<Longrightarrow> lookup ns t = Inr (path_value ms t)"
proof (induction ns arbitrary: ms t)
  case Nil
  then show ?case by simp
next
  case (Cons n ns)
  then obtain m ms' where ms: "ms = m # ms'" "normalizeNote n = Inr m"
    "map normalizeNote ns = map Inr ms'" by (cases ms) auto
  with Cons.IH [OF ms(3)] show ?case by (simp add: own_member_hasOwn)
qed

lemma resolved_parent_path_parent:
  "map normalizeNote ns = map Inr ms \<Longrightarrow> resolved_parent ns t = path_parent ms t"
proof (induction ns arbitrary: ms t)
  case Nil
  then show ?case by simp
next
  case (Cons n ns)
  then obtain m ms' where ms: "ms = m # ms'" "normalizeNote n = Inr m"
    "map normalizeNote ns = map Inr ms'" by (cases ms) auto
  with Cons.IH [OF ms(3)] show ?case by (simp add: own_member_hasOwn)
qed

text \<open>
  Claim C7: for a path whose Notes normalise, \<open>get\<close> returns the value of the path
  when the path is present in the tree. On an absent path it returns the default value
  (\<open>undefined\<close> when none is given) if strict mode is off or a default is given; with
  strict mode on and no default it fails, with \<open>MissingIndex\<close> when the resolved parent
  is a list and with \<open>MissingProperty\<close> when it is a map.
\<close>

theorem get_contract:
  assumes "Notation_split p = Inr ns" "map normalizeNote ns = map Inr ms"
  shows "(path_value ms (deref st (source this)) = Some v \<longrightarrow>
            Notation_get st this p d = Inr v)
       \<and> (path_value ms (deref st (source this)) = None
            \<and> (\<not> strict (options this) \<or> d \<noteq> None) \<longrightarrow>
            Notation_get st this p d = Inr (case d of None \<Rightarrow> Undefined | Some x \<Rightarrow> x))
       \<and> (path_value ms (deref st (source this)) = None \<and> strict (options this) \<and> d = None
            \<and> is_Arr (path_parent ms (deref st (source this))) \<longrightarrow>
            Notation_get st this p d = Inl MissingIndex)
       \<and> (path_value ms (deref st (source this)) = None \<and> strict (options this) \<and> d = None
            \<and> is_Obj (path_parent ms (deref st (source this))) \<longrightarrow>
            Notation_get st this p d = Inl MissingProperty)"
proof -
  let ?src = "deref st (source this)"
  from assms(1) have ne: "ns \<noteq> []" by (rule Notation_split_nonempty)
  have l: "lookup ns ?src = Inr (path_value ms ?src)"
    using assms(2) by (rule lookup_path_value)
  have rp: "resolved_parent ns ?src = path_parent ms ?src"
    using assms(2) by (rule resolved_parent_path_parent)
  from lookup_inspectGet_each [OF l ne, of p 0 Undefined inspect_init]
  obtain pp r where e: "inspectGet_each p ns 0 ?src Undefined inspect_init = Inr (pp, r)"
    and x: "path_value ms ?src = (if r_has r then Some (r_value r) else None)" by blast
  define res where "res = r\<lparr>r_parentIsArray := (js_type (if pp = Undefined \<or> (r_has r \<and> pp = r_value r) then ?src else pp) = ''array'')\<rparr>"
  from assms(1) e have g: "tree_inspectGet ?src p = Inr res"
    by (simp add: tree_inspectGet_def Let_def res_def)
  have h: "r_has res = r_has r" "r_value res = r_value r" by (simp_all add: res_def)
  have arr: "r_parentIsArray res" if "\<not> r_has res" "is_Arr (path_parent ms ?src)"
    using tree_inspectGet_parent [OF g assms(1) that(1)] that(2) rp
    by (cases "path_parent ms ?src") auto
  have obj: "\<not> r_parentIsArray res" if "\<not> r_has res" "is_Obj (path_parent ms ?src)"
    using tree_inspectGet_parent [OF g assms(1) that(1)] that(2) rp
    by (cases "path_parent ms ?src") auto
  from g arr obj x h show ?thesis
    by (auto simp: Notation_get_def tree_get_def split: if_splits)
qed

text \<open>
  A present path gives its value; an absent one gives the default, or in strict mode
  \<open>MissingProperty\<close> on the empty map and \<open>MissingIndex\<close> on the empty list.
\<close>

theorem get_contract_witness:
  "Notation_get [Obj [(''car'', Obj [(''model'', Str ''Charger'')])]]
     \<lparr>source = 0, isArray = False, options = \<lparr>strict = True, preserveIndices = False\<rparr>\<rparr>
     ''car.model'' None = Inr (Str ''Charger'') \<and>
   Notation_get [Obj [(''car'', Obj [(''model'', Str ''Charger'')])]]
     \<lparr>source = 0, isArray = False, options = \<lparr>strict = False, preserveIndices = False\<rparr>\<rparr>
     ''car.color'' (Some (Str ''red'')) = Inr (Str ''red'') \<and>
   Notation_get [Obj []]
     \<lparr>source = 0, isArray = False, options = \<lparr>strict = True, preserveIndices = False\<rparr>\<rparr>
     ''a.b'' None = Inl MissingProperty \<and>
   Notation_get [Arr []]
     \<lparr>source = 0, isArray = True, options = \<lparr>strict = True, preserveIndices = False\<rparr>\<rparr>
     ''[0]'' None = Inl MissingIndex"
proof -
  let ?car = "[Obj [(''car'', Obj [(''model'', Str ''Charger'')])]]"
  let ?s = "\<lparr>source = 0, isArray = False, options = \<lparr>strict = True, preserveIndices = False\<rparr>\<rparr>"
  let ?n = "\<lparr>source = 0, isArray = False, options = \<lparr>strict = False, preserveIndices = False\<rparr>\<rparr>"
  let ?a = "\<lparr>source = 0, isArray = True, options = \<lparr>strict = True, preserveIndices = False\<rparr>\<rparr>"
  have 1: "Notation_split ''car.model'' = Inr [''car'', ''model'']" by code_simp
  have 2: "map normalizeNote [''car'', ''model''] = map Inr [NKey ''car'', NKey ''model'']"
    by code_simp
  have 3: "path_value [NKey ''car'', NKey ''model''] (deref ?car (source ?s)) = Some (Str ''Charger'')"
    by code_simp
  have 4: "Notation_split ''car.color'' = Inr [''car'', ''color'']" by code_simp
  have 5: "map normalizeNote [''car'', ''color''] = map Inr [NKey ''car'', NKey ''color'']"
    by code_simp
  have 6: "path_value [NKey ''car'', NKey ''color''] (deref ?car (source ?n)) = None"
    by code_simp
  have 7: "Notation_split ''a.b'' = Inr [''a'', ''b'']" by code_simp
  have 8: "map normalizeNote [''a'', ''b''] = map Inr [NKey ''a'', NKey ''b'']" by code_simp
  have 9: "path_value [NKey ''a'', NKey ''b''] (deref [Obj []] (source ?s)) = None
    \<and> is_Obj (path_parent [NKey ''a'', NKey ''b''] (deref [Obj []] (source ?s)))" by code_simp
  have 10: "Notation_split ''[0]'' = Inr [''[0]'']" by code_simp
  have 11: "map normalizeNote [''[0]''] = map Inr [NIdx 0]" by code_simp
  have 12: "path_value [NIdx 0] (deref [Arr []] (source ?a)) = None
    \<and> is_Arr (path_parent [NIdx 0] (deref [Arr []] (source ?a)))" by code_simp
  show ?thesis
    using get_contract [OF 1 2, of ?car ?s "Str ''Charger''" None] 3
      get_contract [OF 4 5, of ?car ?n Undefined "Some (Str ''red'')"] 6
      get_contract [OF 7 8, of "[Obj []]" ?s Undefined None] 9
      get_contract [OF 10 11, of "[Arr []]" ?a Undefined None] 12
    by simp
qed

section \<open>Writing and removing\<close>

lemma obj_replace_get: "map_of kvs k \<noteq> None \<Longrightarrow> map_of (obj_replace k v kvs) k = Some v"
  by (induction kvs) auto

lemma obj_replace_other: "k' \<noteq> k \<Longrightarrow> map_of (obj_replace k v kvs) k' = map_of kvs k'"
  by (induction kvs) auto

lemma insert_index_key_get: "map_of (insert_index_key k v kvs) k = Some v"
  by (induction kvs) (auto simp: index_key_less_def str_less_irrefl)

lemma obj_put_get: "map_of (obj_put k v kvs) k = Some v"
proof (cases "map_of kvs k")
  case None
  then have "k \<notin> fst ` set kvs" by (simp add: map_of_eq_None_iff)
  moreover from None have "map_of (kvs @ [(k, v)]) k = Some v" by (simp add: map_add_def)
  ultimately show ?thesis by (simp add: obj_put_def insert_index_key_get)
next
  case (Some y)
  then have "k \<in> fst ` set kvs" by (metis map_of_eq_None_iff option.distinct(1))
  with Some show ?thesis by (simp add: obj_put_def obj_replace_get)
qed

lemma obj_put_has: "k \<in> fst ` set (obj_put k v kvs)"
  using obj_put_get [of k v kvs] by (metis map_of_eq_None_iff option.distinct(1))

lemma assign_member:
  assumes "assign t m v = Inr t'" "\<not> (is_NIdx m \<and> is_Obj t)" "\<not> (is_Arr t \<and> \<not> is_NIdx m)"
    "member_note m"
  shows "hasOwn t' m \<and> member t' m = v"
proof (cases t)
  case (Obj kvs)
  with assms(2) obtain k where k: "m = NKey k" by (cases m) auto
  with assms(4) have "obj_set k v kvs = obj_put k v kvs" by (simp add: obj_set_def)
  with Obj k assms(1) have "t' = Obj (obj_put k v kvs)" by auto
  with k show ?thesis by (simp add: obj_put_has obj_get_def obj_put_get)
next
  case (Arr xs)
  with assms(3) obtain i where i: "m = NIdx i" by (cases m) auto
  with Arr assms(1) have "t' = Arr (arr_put i v xs)" by auto
  with i assms(4) show ?thesis by (simp add: arr_put_def nth_append)
qed (use assms(1) in auto)

lemma member_path_Cons:
  "member_path (n # rest) \<Longrightarrow> normalizeNote n = Inr m \<Longrightarrow> member_note m \<and> member_path rest"
  by (simp add: member_path_def)

lemma set_each_lookup:
  "set_each v Overwrite ns t = Inr t' \<Longrightarrow> ns \<noteq> [] \<Longrightarrow> \<not> index_on_map ns t \<Longrightarrow>
   member_path ns \<Longrightarrow> lookup ns t' = Inr (Some v)"
proof (induction ns arbitrary: t t')
  case Nil
  then show ?case by simp
next
  case (Cons n rest)
  from Cons.prems(1) obtain m where m: "normalizeNote n = Inr m"
    by (auto simp: bindE_eq_Inr)
  from member_path_Cons [OF Cons.prems(4) m] have mn: "member_note m" and mp: "member_path rest"
    by simp_all
  from Cons.prems(3) m have ty1: "\<not> (is_NIdx m \<and> is_Obj t)" by simp
  from Cons.prems(1) m have ty2: "\<not> (is_Arr t \<and> \<not> is_NIdx m)"
    by (auto simp: bindE_eq_Inr split: if_splits)
  show ?case
  proof (cases rest)
    case Nil
    with Cons.prems(1) m ty2 have "assign t m v = Inr t'"
      by (auto split: if_splits)
    from assign_member [OF this ty1 ty2 mn] m Nil show ?thesis by simp
  next
    case (Cons nx rest')
    note rest = this
    from Cons.prems(1) m rest obtain mx where mx: "normalizeNote nx = Inr mx"
      by (auto simp: bindE_eq_Inr)
    show ?thesis
    proof (cases "hasOwn t m")
      case True
      with Cons.prems(1) m rest mx ty2 obtain child where
        c: "set_each v Overwrite rest (member t m) = Inr child" and a: "assign t m child = Inr t'"
        by (auto simp: bindE_eq_Inr)
      from Cons.prems(3) m True have "\<not> index_on_map rest (member t m)" by simp
      with c rest mp have "lookup rest child = Inr (Some v)"
        by (intro Cons.IH) simp_all
      with assign_member [OF a ty1 ty2 mn] m show ?thesis by simp
    next
      case False
      define fresh where "fresh = (case mx of NIdx i \<Rightarrow> Arr [] | _ \<Rightarrow> Obj [])"
      have fr: "(case Some mx of Some (NIdx i) \<Rightarrow> Arr [] | _ \<Rightarrow> Obj []) = fresh"
        by (cases mx) (simp_all add: fresh_def)
      have "set_each v Overwrite (n # nx # rest') t =
        bindE (assign t m fresh) (\<lambda>lvl1.
          bindE (set_each v Overwrite (nx # rest') fresh) (\<lambda>child. assign lvl1 m child))"
        using m mx False ty2 fr
        by (subst set_each.simps(2)) (auto simp add: Let_def simp del: set_each.simps)
      with Cons.prems(1) rest obtain lvl1 child where
        a1: "assign t m fresh = Inr lvl1" and
        c: "set_each v Overwrite rest fresh = Inr child" and
        a2: "assign lvl1 m child = Inr t'"
        by (auto simp: bindE_eq_Inr simp del: set_each.simps)
      have "\<not> index_on_map rest fresh"
        using rest mx by (cases mx) (auto simp: fresh_def)
      with c rest mp have l: "lookup rest child = Inr (Some v)"
        by (intro Cons.IH) simp_all
      from a1 ty1 ty2 have "\<not> (is_NIdx m \<and> is_Obj lvl1)" "\<not> (is_Arr lvl1 \<and> \<not> is_NIdx m)"
        by (cases "(t, m, fresh)" rule: assign.cases; auto)+
      from assign_member [OF a2 this mn] l m show ?thesis by simp
    qed
  qed
qed

lemma set_each_collection:
  "set_each v mode ns t = Inr t' \<Longrightarrow> ns \<noteq> [] \<Longrightarrow> isCollection t"
proof (cases ns)
  case Nil
  assume "ns \<noteq> []"
  with Nil show ?thesis by simp
next
  case (Cons n rest)
  assume a: "set_each v mode ns t = Inr t'"
  show ?thesis
  proof (cases t)
    case (Obj kvs)
    then show ?thesis by simp
  next
    case (Arr xs)
    then show ?thesis by simp
  qed (use a Cons in \<open>auto simp: bindE_eq_Inr Let_def split: if_splits\<close>)
qed

lemma deref_collection: "isCollection (deref st r) \<Longrightarrow> r < length st"
  by (auto simp: deref_def split: if_splits)

lemma deref_update: "r < length st \<Longrightarrow> deref (st[r := t]) r = t"
  by (simp add: deref_def)

lemma tree_get_lookup_conv:
  assumes "tree_get strct src p (Some d) = Inr y"
  shows "\<exists>ns x. Notation_split p = Inr ns \<and> lookup ns src = Inr x
           \<and> y = (case x of None \<Rightarrow> d | Some z \<Rightarrow> z)"
proof -
  from assms obtain res where res: "tree_inspectGet src p = Inr res"
    and y: "y = (if r_has res then r_value res else d)"
    unfolding tree_get_def bindE_eq_Inr by (auto split: if_splits)
  from res obtain ns q where ns: "Notation_split p = Inr ns"
    and e: "inspectGet_each p ns 0 src Undefined inspect_init = Inr q"
    and r: "r_has res = r_has (snd q)" "r_value res = r_value (snd q)"
    unfolding tree_inspectGet_def bindE_eq_Inr by (auto simp: Let_def)
  from ns have "ns \<noteq> []" by (rule Notation_split_nonempty)
  moreover from e have "inspectGet_each p ns 0 src Undefined inspect_init = Inr (fst q, snd q)"
    by simp
  ultimately have "lookup ns src = Inr (if r_has (snd q) then Some (r_value (snd q)) else None)"
    by (rule inspectGet_each_lookup [rotated])
  with ns y r show ?thesis by auto
qed

lemma replace_member_member:
  "hasOwn t m \<Longrightarrow> hasOwn (replace_member t m c) m \<and> member (replace_member t m c) m = c"
proof (cases "(t, m, c)" rule: replace_member.cases)
  case (1 kvs k v)
  assume "hasOwn t m"
  with 1 have "map_of kvs k \<noteq> None" by (simp add: key_in_iff)
  then have "map_of (obj_replace k v kvs) k = Some v" by (rule obj_replace_get)
  with 1 show ?thesis by (simp add: obj_get_def key_in_iff)
qed auto

lemma lookup_modify_at:
  "lookup ns t = Inr (Some y) \<Longrightarrow> lookup ns (modify_at ns f t) = Inr (Some (f y))"
proof (induction ns arbitrary: t)
  case Nil
  then show ?case by simp
next
  case (Cons n ns)
  from Cons.prems obtain m where m: "normalizeNote n = Inr m"
    by (auto simp: bindE_eq_Inr)
  from Cons.prems m have h: "hasOwn t m" and l: "lookup ns (member t m) = Inr (Some y)"
    by (auto split: if_splits)
  from Cons.IH [OF l] replace_member_member [OF h] m h show ?case by simp
qed

lemma delete_member_absent: "\<not> hasOwn (delete_member (Obj kvs) (NKey k)) (NKey k)"
  by auto

lemma tree_inspectRemove_twice:
  assumes "tree_inspectRemove pres src p = Inr (r1, t1)" "\<not> r_parentIsArray r1"
  shows "\<exists>r2. tree_inspectRemove pres t1 p = Inr (r2, t1) \<and> \<not> r_has r2"
proof -
  from assms(1) obtain po par ns m where ne: "p \<noteq> []"
    and po: "Notation_parent p = Inr po"
    and par: "(case po of None \<Rightarrow> Inr src | Some pn \<Rightarrow> tree_get False src pn (Some Null)) = Inr par"
    and ns: "Notation_split p = Inr ns"
    and m: "normalizeNote (last ns) = Inr m"
    by (auto simp: tree_inspectRemove_def bindE_eq_Inr split: if_splits)
  show ?thesis
  proof (cases "hasOwn par m")
    case False
    with assms(1) ne po par ns m have "t1 = src" "\<not> r_has r1"
      by (auto simp: tree_inspectRemove_def)
    with assms(1) show ?thesis by auto
  next
    case True
    with assms ne po par ns m have na: "\<not> is_Arr par"
      by (auto simp: tree_inspectRemove_def)
    with True obtain kvs k where pk: "par = Obj kvs" "m = NKey k"
      by (cases "(par, m)" rule: hasOwn.cases) auto
    define par' where "par' = delete_member (Obj kvs) (NKey k)"
    have rm: "remove_member pres m par = par'"
      using pk by (simp add: remove_member_def par'_def)
    have nh: "\<not> hasOwn par' m" using pk by (auto simp: par'_def)
    have "(case po of None \<Rightarrow> Inr t1 | Some pn \<Rightarrow> tree_get False t1 pn (Some Null)) = Inr par'"
    proof (cases po)
      case None
      with assms(1) ne po par ns m True rm show ?thesis
        by (auto simp: tree_inspectRemove_def)
    next
      case (Some pn)
      with par have g: "tree_get False src pn (Some Null) = Inr par" by simp
      from tree_get_lookup_conv [OF g] obtain pns x where pns: "Notation_split pn = Inr pns"
        and x: "lookup pns src = Inr x" and y: "par = (case x of None \<Rightarrow> Null | Some z \<Rightarrow> z)"
        by blast
      from y pk have x': "x = Some par" by (cases x) auto
      from assms(1) ne po par ns m True rm Some pns
      have t1: "t1 = modify_at pns (remove_member pres m) src"
        by (auto simp: tree_inspectRemove_def)
      from x x' have "lookup pns t1 = Inr (Some (remove_member pres m par))"
        unfolding t1 by (intro lookup_modify_at) simp
      with rm have "lookup pns t1 = Inr (Some par')" by simp
      from tree_get_lookup(2) [OF pns this refl] Some show ?thesis by simp
    qed
    with ne po ns m nh show ?thesis
      by (auto simp: tree_inspectRemove_def)
  qed
qed

text \<open>
  Claim C5, as the code has it: for every tree, every valid path none of whose index
  Notes addresses a map of the tree, none of whose Notes is the key \<open>__proto__\<close> and
  all of whose index Notes are below \<open>2^32 - 1\<close>, and every value, after \<open>set\<close>
  completes in the default overwrite mode, \<open>get\<close> of the path returns exactly the
  value.
\<close>

theorem set_then_get:
  assumes "Notation_set st this p v Overwrite = Inr st'" "Notation_split p = Inr ns"
    "\<not> index_on_map ns (deref st (source this))" "member_path ns"
  shows "Notation_get st' this p d = Inr v"
proof -
  let ?src = "deref st (source this)"
  from assms(1) obtain t where t: "tree_set ?src p v Overwrite = Inr t"
    and st': "st' = st[source this := t]"
    by (auto simp: Notation_set_def bindE_eq_Inr)
  from t assms(2) have s: "set_each v Overwrite ns ?src = Inr t"
    by (auto simp: tree_set_def split: if_splits)
  from assms(2) have ne: "ns \<noteq> []" by (rule Notation_split_nonempty)
  from s ne have "isCollection ?src" by (rule set_each_collection)
  then have "source this < length st" by (rule deref_collection)
  with st' have d: "deref st' (source this) = t" by (simp add: deref_update)
  from s ne assms(3,4) have "lookup ns t = Inr (Some v)" by (rule set_each_lookup)
  from tree_get_lookup(2) [OF assms(2) this refl] d show ?thesis
    by (simp add: Notation_get_def)
qed

text \<open>Setting \<open>a.b[1]\<close> in the empty map builds the levels, and \<open>get\<close> reads the value.\<close>

theorem set_then_get_witness:
  "Notation_get [Obj [(''a'', Obj [(''b'', Arr [Undefined, Str ''x''])])]]
     \<lparr>source = 0, isArray = False, options = DEFAULT_OPTS\<rparr> ''a.b[1]'' None = Inr (Str ''x'')"
proof -
  let ?n = "\<lparr>source = 0, isArray = False, options = DEFAULT_OPTS\<rparr>"
  have 1: "Notation_set [Obj []] ?n ''a.b[1]'' (Str ''x'') Overwrite =
    Inr [Obj [(''a'', Obj [(''b'', Arr [Undefined, Str ''x''])])]]"
    by code_simp
  have 2: "Notation_split ''a.b[1]'' = Inr [''a'', ''b'', ''[1]'']" by code_simp
  have 3: "\<not> index_on_map [''a'', ''b'', ''[1]''] (deref [Obj []] (source ?n))" by code_simp
  have 4: "member_path [''a'', ''b'', ''[1]'']" by code_simp
  show ?thesis using set_then_get [OF 1 2 3 4] by simp
qed

text \<open>
  Claim C5 as stated fails when an index Note addresses a map: \<open>set("[0]", 1)\<close> on
  the empty map completes and writes the key \<open>0\<close>, and \<open>get("[0]")\<close> then finds no
  member and returns \<open>undefined\<close>.
\<close>

theorem set_then_get_counterexample:
  "Notation_set [Obj []] \<lparr>source = 0, isArray = False, options = DEFAULT_OPTS\<rparr>
     ''[0]'' (Num 1) Overwrite = Inr [Obj [(''0'', Num 1)]] \<and>
   Notation_get [Obj [(''0'', Num 1)]] \<lparr>source = 0, isArray = False, options = DEFAULT_OPTS\<rparr>
     ''[0]'' None = Inr Undefined"
  by code_simp

text \<open>
  Claim C4, as the code has it: with strict mode off, when the inspection of a first
  \<open>remove\<close> finds that the parent of the path is not a list, a second \<open>remove\<close> of the
  path leaves the tree unchanged and its inspection reports that the path is absent.
\<close>

theorem remove_twice_on_map:
  assumes "\<not> strict (options this)" "source this < length st"
    "Notation_inspectRemove st this p = Inr (r1, st1)" "\<not> r_parentIsArray r1"
  shows "Notation_remove st this p = Inr st1 \<and> Notation_remove st1 this p = Inr st1
       \<and> (\<exists>r2. Notation_inspectRemove st1 this p = Inr (r2, st1) \<and> \<not> r_has r2)"
proof -
  let ?pres = "preserveIndices (options this)"
  from assms(3) obtain t1 where t1: "tree_inspectRemove ?pres (deref st (source this)) p = Inr (r1, t1)"
    and st1: "st1 = st[source this := t1]"
    by (auto simp: Notation_inspectRemove_def bindE_eq_Inr)
  from tree_inspectRemove_twice [OF t1 assms(4)] obtain r2 where
    r2: "tree_inspectRemove ?pres t1 p = Inr (r2, t1)" "\<not> r_has r2" by blast
  from assms(2) st1 have "deref st1 (source this) = t1" by (simp add: deref_update)
  with r2 st1 have "Notation_inspectRemove st1 this p = Inr (r2, st1)"
    by (simp add: Notation_inspectRemove_def)
  with assms(1,3) r2(2) show ?thesis by (simp add: Notation_remove_def)
qed

text \<open>Removing \<open>car.model\<close> twice: the second removal finds nothing and changes nothing.\<close>

theorem remove_twice_on_map_witness:
  "Notation_remove [Obj [(''car'', Obj [(''year'', Num 1970)])]]
     \<lparr>source = 0, isArray = False, options = DEFAULT_OPTS\<rparr> ''car.model'' =
   Inr [Obj [(''car'', Obj [(''year'', Num 1970)])]]"
proof -
  let ?n = "\<lparr>source = 0, isArray = False, options = DEFAULT_OPTS\<rparr>"
  let ?st = "[Obj [(''car'', Obj [(''model'', Str ''Charger''), (''year'', Num 1970)])]]"
  have 1: "\<not> strict (options ?n)" by (simp add: DEFAULT_OPTS_def)
  have 2: "source ?n < length ?st" by simp
  have 3: "Notation_inspectRemove ?st ?n ''car.model'' =
    Inr (\<lparr>r_notation = Some ''car.model'', r_has = True, r_value = Str ''Charger'',
          r_type = Some ''string'', r_level = Some 2, r_lastNote = Some ''model'',
          r_lastNoteNormalized = Some (NKey ''model''), r_parentIsArray = False\<rparr>,
         [Obj [(''car'', Obj [(''year'', Num 1970)])]])"
    by code_simp
  show ?thesis using remove_twice_on_map [OF 1 2 3] by simp
qed

text \<open>
  Claim C4 as stated fails on a list: removing \<open>[0]\<close> shifts the later items down, and
  a second removal of \<open>[0]\<close> finds and removes the next item.
\<close>

theorem remove_twice_counterexample:
  "Notation_remove [Arr [Str ''a'', Str ''b'']]
     \<lparr>source = 0, isArray = True, options = DEFAULT_OPTS\<rparr> ''[0]'' = Inr [Arr [Str ''b'']] \<and>
   Notation_inspectRemove [Arr [Str ''b'']]
     \<lparr>source = 0, isArray = True, options = DEFAULT_OPTS\<rparr> ''[0]'' =
   Inr (\<lparr>r_notation = Some ''[0]'', r_has = True, r_value = Str ''b'',
         r_type = Some ''string'', r_level = Some 1, r_lastNote = Some ''[0]'',
         r_lastNoteNormalized = Some (NIdx 0), r_parentIsArray = True\<rparr>,
        [Arr []])"
  by code_simp

section \<open>Union and filter on concrete inputs\<close>

text \<open>
  Claim C1 fails on the code: the union of \<open>["*", "!*.b"]\<close> and \<open>["a.b"]\<close> is
  \<open>["*", "!*.b"]\<close>. The second list selects the path \<open>a.b\<close>, the union does not.
  The second pass of \<open>_compareUnion\<close> keeps \<open>a.b\<close> (a negated glob of the other list
  covers it), and the last \<open>normalize\<close> of \<open>union\<close> drops it again.
\<close>

theorem union_loses_selected_path:
  "Glob_union [''*'', ''!*.b''] [''a.b''] = Inr [''*'', ''!*.b''] \<and>
   selects [''a.b''] ''a.b'' = Inr True \<and>
   selects [''*'', ''!*.b''] ''a.b'' = Inr False \<and>
   Glob_compareUnion [''a.b''] [''*'', ''!*.b''] [''!*.b'', ''*''] = Inr [''!*.b'', ''*'', ''a.b'']"
  by code_simp

text \<open>
  Claim C8: on the source \<open>{brand: "Ford", model: {name: "Mustang", year: 1970}}\<close>,
  whose two maps are the cells 0 and 1 of the heap, \<open>filter(["*", "!model.year"])\<close>
  completes for every fuel from 2 on. The new source of the accessor (cell 4, with the
  map of cell 3) stands for \<open>{brand: "Ford", model: {name: "Mustang"}}\<close>; it is made of
  new cells, the clone of the source, so the removal of \<open>model.year\<close> changes the clone
  only: the cells 0 and 1 are as they were, and the value at cell 0 still stands for
  the source tree.
\<close>

theorem filter_car_example:
  "Notation_filter (Suc (Suc n))
     [HObj [(''brand'', HStr ''Ford''), (''model'', HRef 1)],
      HObj [(''name'', HStr ''Mustang''), (''year'', HNum 1970)]]
     \<lparr>source = 0, isArray = False, options = DEFAULT_OPTS\<rparr> [''*'', ''!model.year''] =
   Some (Inr ([HObj [(''brand'', HStr ''Ford''), (''model'', HRef 1)],
               HObj [(''name'', HStr ''Mustang''), (''year'', HNum 1970)],
               HObj [],
               HObj [(''name'', HStr ''Mustang'')],
               HObj [(''brand'', HStr ''Ford''), (''model'', HRef 3)]],
              \<lparr>source = 4, isArray = False, options = DEFAULT_OPTS\<rparr>)) \<and>
   h_tree 2
     [HObj [(''brand'', HStr ''Ford''), (''model'', HRef 1)],
      HObj [(''name'', HStr ''Mustang''), (''year'', HNum 1970)],
      HObj [],
      HObj [(''name'', HStr ''Mustang'')],
      HObj [(''brand'', HStr ''Ford''), (''model'', HRef 3)]] (HRef 4) =
   Some (Obj [(''brand'', Str ''Ford''), (''model'', Obj [(''name'', Str ''Mustang'')])]) \<and>
   h_tree 2
     [HObj [(''brand'', HStr ''Ford''), (''model'', HRef 1)],
      HObj [(''name'', HStr ''Mustang''), (''year'', HNum 1970)],
      HObj [],
      HObj [(''name'', HStr ''Mustang'')],
      HObj [(''brand'', HStr ''Ford''), (''model'', HRef 3)]] (HRef 0) =
   Some (Obj [(''brand'', Str ''Ford''),
              (''model'', Obj [(''name'', Str ''Mustang''), (''year'', Num 1970)])])"
proof -
  let ?h0 = "[HObj [(''brand'', HStr ''Ford''), (''model'', HRef 1)],
              HObj [(''name'', HStr ''Mustang''), (''year'', HNum 1970)]]"
  let ?h2 = "?h0 @ [HObj [], HObj [(''name'', HStr ''Mustang''), (''year'', HNum 1970)],
              HObj [(''brand'', HStr ''Ford''), (''model'', HRef 3)]]"
  let ?h3 = "?h0 @ [HObj [], HObj [(''name'', HStr ''Mustang'')],
              HObj [(''brand'', HStr ''Ford''), (''model'', HRef 3)]]"
  let ?me = "\<lparr>source = 0, isArray = False, options = DEFAULT_OPTS\<rparr>"
  let ?filtered = "\<lparr>source = 4, isArray = False, options = DEFAULT_OPTS\<rparr>"
  have norm: "Glob_normalize [''*'', ''!model.year''] = Inr [''*'', ''!model.year'']"
    by code_simp
  have clone: "h_clone (Suc (Suc n)) (?h0 @ [HObj []]) (HRef 0) = Some (?h2, HRef 4)"
    by (simp add: cell_def h_alloc_def)
  have created: "h_create ?h2 (HRef 4) = Inr ?filtered" by code_simp
  let ?g = "\<lparr>glob = ''!model.year'', absGlob = ''model.year'', isNegated = True,
             gnotes = [''model'', ''year''], last_note = Some ''year'',
             parent = Some ''model''\<rparr>"
  let ?tr = "\<lparr>normalized = ''model.year'', emptyCell = None, eType = None\<rparr>"
  have g: "Glob_create ''!model.year'' = Inr ?g" by code_simp
  have tr: "glob_trail ?g = ?tr" by code_simp
  have w: "\<not> re_WILDCARDS_test ''model.year''" by code_simp
  have d: "filter_direct ?h2 ?me ?filtered ?g ?tr None = Inr ?h3" by code_simp
  have globs: "filter_globs (Suc (Suc n)) ?h2 ?me ?filtered [''!model.year''] = Some (Inr ?h3)"
    using d w by (simp add: g tr)
  have wild: "re_WILDCARD ''*''" "\<not> re_NEGATE_ALL ''*''" by code_simp+
  have f: "Notation_filter (Suc (Suc n)) ?h0 ?me [''*'', ''!model.year''] =
      Some (Inr (?h3, ?filtered))"
    unfolding Notation_filter_def norm
    using clone created globs wild by (simp add: h_alloc_def)
  have t1: "h_tree 2 ?h3 (HRef 4) =
      Some (Obj [(''brand'', Str ''Ford''), (''model'', Obj [(''name'', Str ''Mustang'')])])"
    by code_simp
  have t2: "h_tree 2 ?h3 (HRef 0) =
      Some (Obj [(''brand'', Str ''Ford''),
                 (''model'', Obj [(''name'', Str ''Mustang''), (''year'', Num 1970)])])"
    by code_simp
  from f t1 t2 show ?thesis by simp
qed

text \<open>
  What the theorem says of the source is not a matter of course. A glob without
  wildcards that is not negated puts the map of the source itself into the filtered
  value, and a negated glob after it then removes from that map: \<open>filter(["a", "!a.b"])\<close>
  on \<open>{a: {b: 1, c: 2}}\<close> leaves the source as \<open>{a: {c: 2}}\<close>.
\<close>

lemma filter_changes_shared_source:
  "Notation_filter 2 [HObj [(''a'', HRef 1)], HObj [(''b'', HNum 1), (''c'', HNum 2)]]
     \<lparr>source = 0, isArray = False, options = DEFAULT_OPTS\<rparr> [''a'', ''!a.b''] =
   Some (Inr ([HObj [(''a'', HRef 1)], HObj [(''c'', HNum 2)], HObj [(''a'', HRef 1)],
               HObj [(''b'', HNum 1), (''c'', HNum 2)], HObj [(''a'', HRef 3)]],
              \<lparr>source = 2, isArray = False, options = DEFAULT_OPTS\<rparr>)) \<and>
   h_tree 2 [HObj [(''a'', HRef 1)], HObj [(''c'', HNum 2)], HObj [(''a'', HRef 1)],
             HObj [(''b'', HNum 1), (''c'', HNum 2)], HObj [(''a'', HRef 3)]] (HRef 0) =
   Some (Obj [(''a'', Obj [(''c'', Num 2)])])"
  by code_simp

section \<open>Flattening and expanding\<close>

subsection \<open>Index Notes\<close>

lemma digit_char: "k < 10 \<Longrightarrow> is_digit (''0123456789'' ! k) \<and> digit_val (''0123456789'' ! k) = k"
proof -
  assume "k < 10"
  then have "k \<in> {0, 1, 2, 3, 4, 5, 6, 7, 8, 9}" by auto
  then show ?thesis
    by (auto simp: is_digit_def digit_val_def)
qed

lemma show_nat_digits: "list_all is_digit (show_nat n) \<and> show_nat n \<noteq> []"
proof (induction n rule: show_nat.induct)
  case (1 n)
  show ?case
  proof (cases "n < 10")
    case True
    then show ?thesis by (subst show_nat.simps, subst (2) show_nat.simps) (simp add: digit_char)
  next
    case False
    with 1 have "list_all is_digit (show_nat (n div 10))" by simp
    moreover have "n mod 10 < 10" by simp
    ultimately show ?thesis using False
      by (subst show_nat.simps, subst (2) show_nat.simps) (simp add: digit_char)
  qed
qed

lemma parseInt_snoc: "parseInt (ds @ [d]) = 10 * parseInt ds + digit_val d"
  by (simp add: parseInt_def)

lemma parseInt_show_nat: "parseInt (show_nat n) = n"
proof (induction n rule: show_nat.induct)
  case (1 n)
  show ?case
  proof (cases "n < 10")
    case True
    then show ?thesis by (subst show_nat.simps) (simp add: parseInt_def digit_char)
  next
    case False
    with 1 have "parseInt (show_nat (n div 10)) = n div 10" by simp
    moreover have "n mod 10 < 10" by simp
    ultimately show ?thesis using False
      by (subst show_nat.simps) (simp add: parseInt_snoc digit_char)
  qed
qed

lemma not_var_start_bracket: "\<not> is_var_start (CHR ''['')"
  by (simp add: is_var_start_def)

lemma normalizeNote_var: "re_VAR n \<Longrightarrow> normalizeNote n = Inr (NKey n)"
  by (simp add: normalizeNote_def)

lemma normalizeNote_idx: "normalizeNote (idx_note i) = Inr (NIdx i)"
proof -
  have 1: "\<not> re_VAR (idx_note i)" by (simp add: re_VAR_def idx_note_def not_var_start_bracket)
  have ne: "show_nat i \<noteq> []" using show_nat_digits by blast
  have 2: "butlast (tl (idx_note i)) = show_nat i" by (simp add: idx_note_def butlast_append)
  have "3 \<le> length (idx_note i)" using ne by (cases "show_nat i") (auto simp: idx_note_def)
  then have 3: "re_ARRAY_NOTE (idx_note i)"
    using show_nat_digits [of i] 2 by (simp add: re_ARRAY_NOTE_def) (simp add: idx_note_def)
  from 1 2 3 show ?thesis by (simp add: normalizeNote_def parseInt_show_nat)
qed

subsection \<open>Building a tree from its leaves\<close>

lemma assign_has: "hasOwn t m \<Longrightarrow> assign t m c = Inr (replace_member t m c)"
  by (cases "(t, m)" rule: hasOwn.cases) (auto simp: obj_set_def obj_put_def arr_put_def)

lemma obj_replace_twice: "obj_replace k b (obj_replace k a kvs) = obj_replace k b kvs"
  by (induction kvs) auto

lemma replace_member_twice:
  "replace_member (replace_member t m a) m b = replace_member t m b"
  by (cases "(t, m, a)" rule: replace_member.cases) (auto simp: obj_replace_twice)

lemma obj_replace_same: "map_of kvs k = Some v \<Longrightarrow> obj_replace k v kvs = kvs"
  by (induction kvs) (auto split: if_splits)

lemma replace_member_same: "hasOwn t m \<Longrightarrow> replace_member t m (member t m) = t"
proof (cases "(t, m)" rule: hasOwn.cases)
  case (1 kvs k)
  assume "hasOwn t m"
  with 1 obtain v where "map_of kvs k = Some v" by (auto simp: key_in_iff)
  with 1 show ?thesis by (simp add: obj_get_def obj_replace_same)
qed auto

lemma set_each_has:
  assumes "normalizeNote n = Inr m" "hasOwn t m" "q \<noteq> []"
  shows "set_each x Overwrite (n # q) t =
    bindE (set_each x Overwrite q (member t m)) (\<lambda>c. Inr (replace_member t m c))"
proof -
  from assms(2) have ty: "\<not> (is_Arr t \<and> \<not> is_NIdx m)"
    by (cases "(t, m)" rule: hasOwn.cases) auto
  from assms(3) obtain nx q' where q: "q = nx # q'" by (cases q) auto
  show ?thesis
  proof (cases "normalizeNote nx")
    case (Inl e)
    with assms(1) q show ?thesis by simp
  next
    case (Inr mx)
    have "set_each x Overwrite (n # nx # q') t =
      bindE (set_each x Overwrite (nx # q') (member t m)) (\<lambda>c. assign t m c)"
      using assms(1,2) Inr ty by (subst set_each.simps(2)) (auto simp del: set_each.simps)
    with assms(2) q show ?thesis by (simp add: assign_has del: set_each.simps)
  qed
qed

lemma set_all_append: "set_all (a @ b) t = bindE (set_all a t) (set_all b)"
proof (induction a arbitrary: t)
  case Nil
  then show ?case by simp
next
  case (Cons l a)
  show ?case
  proof (cases "set_each (snd l) Overwrite (fst l) t")
    case (Inl e)
    then show ?thesis by simp
  next
    case (Inr t1)
    with Cons show ?thesis by simp
  qed
qed

lemma set_all_prefixed:
  assumes "normalizeNote n = Inr m"
  shows "hasOwn t m \<Longrightarrow> \<forall>l\<in>set ls. fst l \<noteq> [] \<Longrightarrow>
    set_all (map (\<lambda>l. (n # fst l, snd l)) ls) t =
    bindE (set_all ls (member t m)) (\<lambda>c. Inr (replace_member t m c))"
proof (induction ls arbitrary: t)
  case Nil
  then show ?case by (simp add: replace_member_same)
next
  case (Cons l ls)
  from Cons.prems(2) have q: "fst l \<noteq> []" by simp
  note step = set_each_has [OF assms Cons.prems(1) q, of "snd l"]
  show ?case
  proof (cases "set_each (snd l) Overwrite (fst l) (member t m)")
    case (Inl e)
    with step show ?thesis by simp
  next
    case (Inr c)
    let ?t1 = "replace_member t m c"
    from replace_member_member [OF Cons.prems(1), of c]
    have h: "hasOwn ?t1 m" and mem: "member ?t1 m = c" by simp_all
    from Cons.prems(2) have "\<forall>l\<in>set ls. fst l \<noteq> []" by simp
    from Cons.IH [OF h this] mem Inr step show ?thesis
      by (simp add: replace_member_twice)
  qed
qed

lemma obj_replace_insert_index_key:
  "map_of kvs k = None \<Longrightarrow>
   obj_replace k b (insert_index_key k a kvs) = insert_index_key k b kvs"
  by (induction kvs) (auto split: if_splits)

lemma obj_replace_append:
  "map_of kvs k = None \<Longrightarrow> obj_replace k b (kvs @ [(k, a)]) = kvs @ [(k, b)]"
  by (induction kvs) (auto split: if_splits)

lemma assign_new:
  assumes "note_fits t m" "\<not> hasOwn t m" "member_note m"
  shows "\<exists>t1. assign t m a = Inr t1 \<and> hasOwn t1 m \<and> member t1 m = a
           \<and> assign t m b = Inr (replace_member t1 m b)"
proof (cases t)
  case (Obj kvs)
  with assms(1) obtain k where k: "m = NKey k" by (cases m) (auto simp: note_fits_def)
  with Obj assms(2) have n: "map_of kvs k = None" by (simp add: key_in_iff)
  then have nk: "k \<notin> fst ` set kvs" by (simp add: key_in_iff)
  from k assms(3) have s: "obj_set k a kvs = obj_put k a kvs" "obj_set k b kvs = obj_put k b kvs"
    by (simp_all add: obj_set_def)
  from Obj k s have a: "assign t m a = Inr (Obj (obj_put k a kvs))" by simp
  have r: "obj_replace k b (obj_put k a kvs) = obj_put k b kvs"
    using n nk by (simp add: obj_put_def obj_replace_insert_index_key obj_replace_append)
  from Obj k a r s show ?thesis
    by (simp add: obj_put_has obj_get_def obj_put_get)
next
  case (Arr xs)
  with assms(1) obtain i where i: "m = NIdx i" by (cases m) (auto simp: note_fits_def)
  with Arr assms(2) have "length xs \<le> i" by simp
  with Arr i assms(3) show ?thesis by (simp add: arr_put_def nth_append list_update_append)
qed (use assms(1) in \<open>auto simp: note_fits_def\<close>)

lemma set_all_new_child:
  assumes n: "normalizeNote n = Inr m" and fits: "note_fits t m" and new: "\<not> hasOwn t m"
    and mn: "member_note m"
    and ls: "ls = (nq # q, x) # ls'" and nq: "normalizeNote nq = Inr mq"
    and fresh: "(case mq of NIdx i \<Rightarrow> Arr [] | _ \<Rightarrow> Obj []) = e"
    and ne: "\<forall>l\<in>set ls. fst l \<noteq> []"
    and inner: "set_all ls e = Inr v"
  shows "set_all (map (\<lambda>l. (n # fst l, snd l)) ls) t = assign t m v"
proof -
  from assign_new [OF fits new mn, of e v] obtain t1 where
    a: "assign t m e = Inr t1" and h: "hasOwn t1 m" and mem: "member t1 m = e"
    and b: "assign t m v = Inr (replace_member t1 m v)" by blast
  from fits have ty: "\<not> (is_Arr t \<and> \<not> is_NIdx m)" by (cases t) (auto simp: note_fits_def)
  have fr: "(case Some mq of Some (NIdx i) \<Rightarrow> Arr [] | _ \<Rightarrow> Obj []) = e"
    using fresh by (cases mq) auto
  have first: "set_each x Overwrite (n # nq # q) t = set_each x Overwrite (n # nq # q) t1"
  proof -
    have "set_each x Overwrite (n # nq # q) t =
      bindE (set_each x Overwrite (nq # q) e) (\<lambda>c. assign t1 m c)"
      using n nq new ty fr a
      by (subst set_each.simps(2)) (auto simp add: Let_def simp del: set_each.simps)
    also have "\<dots> = bindE (set_each x Overwrite (nq # q) (member t1 m))
        (\<lambda>c. Inr (replace_member t1 m c))"
      using h mem by (simp add: assign_has del: set_each.simps)
    also have "\<dots> = set_each x Overwrite (n # nq # q) t1"
      using set_each_has [OF n h, of "nq # q" x] by simp
    finally show ?thesis .
  qed
  have "set_all (map (\<lambda>l. (n # fst l, snd l)) ls) t = set_all (map (\<lambda>l. (n # fst l, snd l)) ls) t1"
    using ls first by (simp del: set_each.simps)
  also have "\<dots> = bindE (set_all ls (member t1 m)) (\<lambda>c. Inr (replace_member t1 m c))"
    using set_all_prefixed [OF n h ne] .
  also have "\<dots> = Inr (replace_member t1 m v)" using mem inner by simp
  finally show ?thesis using b by simp
qed

lemma leaves_notes_ne:
  "l \<in> set (leaf_notes v) \<longrightarrow> fst l \<noteq> []"
  "l \<in> set (prop_leaves kvs) \<longrightarrow> fst l \<noteq> []"
  "l \<in> set (item_leaves i xs) \<longrightarrow> fst l \<noteq> []"
  by (induction v and kvs and i xs rule: leaf_notes_prop_leaves_item_leaves.induct) auto

lemma first_leaf:
  "plain v \<longrightarrow> isCollection v \<longrightarrow>
     (\<exists>nq q x ls mq. leaf_notes v = (nq # q, x) # ls \<and> normalizeNote nq = Inr mq
        \<and> (case mq of NIdx i \<Rightarrow> Arr [] | _ \<Rightarrow> Obj []) = empty_like v)"
  "plain_props kvs \<longrightarrow> kvs \<noteq> [] \<longrightarrow>
     (\<exists>nq q x ls k. prop_leaves kvs = (nq # q, x) # ls \<and> normalizeNote nq = Inr (NKey k))"
  "plain_items xs \<longrightarrow> xs \<noteq> [] \<longrightarrow>
     (\<exists>nq q x ls. item_leaves i xs = (nq # q, x) # ls \<and> normalizeNote nq = Inr (NIdx i))"
proof (induction v and kvs and i xs rule: leaf_notes_prop_leaves_item_leaves.induct)
  case (1 kvs)
  then show ?case by auto
next
  case (2 xs)
  then show ?case by auto
next
  case (9 kv kvs)
  show ?case
  proof (intro impI)
    assume p: "plain_props (kv # kvs)"
    then have k: "normalizeNote (fst kv) = Inr (NKey (fst kv))" by (simp add: normalizeNote_var)
    show "\<exists>nq q x ls k. prop_leaves (kv # kvs) = (nq # q, x) # ls \<and> normalizeNote nq = Inr (NKey k)"
    proof (cases "isCollection (snd kv)")
      case True
      with 9(1) p obtain nq q x ls where "leaf_notes (snd kv) = (nq # q, x) # ls" by auto
      with True k show ?thesis by auto
    next
      case False
      with k show ?thesis by auto
    qed
  qed
next
  case (11 i v vs)
  show ?case
  proof (intro impI)
    assume p: "plain_items (v # vs)"
    have k: "normalizeNote (idx_note i) = Inr (NIdx i)" by (rule normalizeNote_idx)
    show "\<exists>nq q x ls. item_leaves i (v # vs) = (nq # q, x) # ls \<and> normalizeNote nq = Inr (NIdx i)"
    proof (cases "isCollection v")
      case True
      with 11(1) p obtain nq q x ls where "leaf_notes v = (nq # q, x) # ls" by auto
      with True k show ?thesis by auto
    next
      case False
      with k show ?thesis by auto
    qed
  qed
qed simp_all

lemma var_start_not_digit: "is_var_start c \<Longrightarrow> \<not> is_digit c"
  by (auto simp: is_var_start_def is_digit_def)

lemma var_not_index_key: "re_VAR k \<Longrightarrow> \<not> is_index_key k"
  by (cases k) (auto simp: re_VAR_def is_index_key_def var_start_not_digit)

lemma assign_obj_new:
  "k \<notin> fst ` set acc \<Longrightarrow> re_VAR k \<Longrightarrow> k \<noteq> ''__proto__'' \<Longrightarrow>
   assign (Obj acc) (NKey k) v = Inr (Obj (acc @ [(k, v)]))"
  by (simp add: obj_set_def obj_put_def var_not_index_key)

lemma assign_arr_new:
  "is_array_index (length acc) \<Longrightarrow> assign (Arr acc) (NIdx (length acc)) v = Inr (Arr (acc @ [v]))"
  by (simp add: arr_put_def)

lemma set_all_child:
  assumes n: "normalizeNote n = Inr m" and fits: "note_fits t m" and new: "\<not> hasOwn t m"
    and mn: "member_note m"
    and pl: "plain v"
    and inner: "isCollection v \<Longrightarrow> set_all (leaf_notes v) (empty_like v) = Inr v"
  shows "set_all (if isCollection v then map (\<lambda>l. (n # fst l, snd l)) (leaf_notes v)
                  else [([n], v)]) t = assign t m v"
proof (cases "isCollection v")
  case True
  from first_leaf(1) pl True obtain nq q x ls mq where
    ls: "leaf_notes v = (nq # q, x) # ls" and nq: "normalizeNote nq = Inr mq"
    and fr: "(case mq of NIdx i \<Rightarrow> Arr [] | _ \<Rightarrow> Obj []) = empty_like v" by blast
  have ne: "\<forall>l\<in>set (leaf_notes v). fst l \<noteq> []" using leaves_notes_ne(1) by blast
  from set_all_new_child [OF n fits new mn ls nq fr ne inner [OF True]] True show ?thesis by simp
next
  case False
  from fits have ty: "\<not> (is_Arr t \<and> \<not> is_NIdx m)" by (cases t) (auto simp: note_fits_def)
  with False n new show ?thesis
    by (cases "assign t m v") auto
qed

lemma child_leaves_first:
  assumes "plain v"
  shows "\<exists>q x. (n # q, x) \<in> set (if isCollection v
      then map (\<lambda>l. (n # fst l, snd l)) (leaf_notes v) else [([n], v)])"
proof (cases "isCollection v")
  case True
  from first_leaf(1) assms True obtain nq q x ls where "leaf_notes v = (nq # q, x) # ls"
    by blast
  with True show ?thesis by auto
next
  case False
  then show ?thesis by auto
qed

lemma build_tree:
  "plain v \<longrightarrow> isCollection v \<longrightarrow> (\<forall>l\<in>set (leaf_notes v). member_path (fst l))
     \<longrightarrow> set_all (leaf_notes v) (empty_like v) = Inr v"
  "\<forall>acc. plain_props kvs \<longrightarrow> distinct (map fst kvs) \<longrightarrow> fst ` set kvs \<inter> fst ` set acc = {}
     \<longrightarrow> (\<forall>l\<in>set (prop_leaves kvs). member_path (fst l))
     \<longrightarrow> set_all (prop_leaves kvs) (Obj acc) = Inr (Obj (acc @ kvs))"
  "\<forall>acc. plain_items xs \<longrightarrow> i = length acc
     \<longrightarrow> (\<forall>l\<in>set (item_leaves i xs). member_path (fst l))
     \<longrightarrow> set_all (item_leaves i xs) (Arr acc) = Inr (Arr (acc @ xs))"
proof (induction v and kvs and i xs rule: leaf_notes_prop_leaves_item_leaves.induct)
  case (1 kvs)
  then show ?case by simp
next
  case (2 xs)
  then show ?case by simp
next
  case (9 kv kvs)
  show ?case
  proof (intro allI impI)
    fix acc :: "(string \<times> jsval) list"
    assume p: "plain_props (kv # kvs)" and d: "distinct (map fst (kv # kvs))"
      and dj: "fst ` set (kv # kvs) \<inter> fst ` set acc = {}"
      and mp: "\<forall>l\<in>set (prop_leaves (kv # kvs)). member_path (fst l)"
    let ?c = "if isCollection (snd kv)
              then map (\<lambda>l. (fst kv # fst l, snd l)) (leaf_notes (snd kv))
              else [([fst kv], snd kv)]"
    from dj have new: "fst kv \<notin> fst ` set acc" by auto
    from p have k: "normalizeNote (fst kv) = Inr (NKey (fst kv))" and var: "re_VAR (fst kv)"
      and pv: "plain (snd kv)" by (simp_all add: normalizeNote_var)
    from child_leaves_first [OF pv, of "fst kv"] obtain q x where "(fst kv # q, x) \<in> set ?c"
      by blast
    then have "(fst kv # q, x) \<in> set (prop_leaves (kv # kvs))" by simp
    from bspec [OF mp this] have "member_path (fst kv # q)" by simp
    from member_path_Cons [OF this k] have mn: "member_note (NKey (fst kv))" by simp
    have mpv: "\<forall>l\<in>set (leaf_notes (snd kv)). member_path (fst l)" if "isCollection (snd kv)"
    proof
      fix l
      assume "l \<in> set (leaf_notes (snd kv))"
      with that have "(fst kv # fst l, snd l) \<in> set (prop_leaves (kv # kvs))" by auto
      with mp have "member_path (fst kv # fst l)" by force
      from member_path_Cons [OF this k] show "member_path (fst l)" by simp
    qed
    have inner: "isCollection (snd kv) \<Longrightarrow> set_all (leaf_notes (snd kv)) (empty_like (snd kv)) = Inr (snd kv)"
      using 9(1) pv mpv by simp
    have "set_all ?c (Obj acc) = assign (Obj acc) (NKey (fst kv)) (snd kv)"
      using new by (intro set_all_child [OF k _ _ mn pv inner]) (simp_all add: note_fits_def)
    also have "\<dots> = Inr (Obj (acc @ [kv]))"
      using assign_obj_new [OF new var, of "snd kv"] mn by simp
    finally have child: "set_all ?c (Obj acc) = Inr (Obj (acc @ [kv]))" .
    from d dj have "fst ` set kvs \<inter> fst ` set (acc @ [kv]) = {}" by auto
    moreover from mp have "\<forall>l\<in>set (prop_leaves kvs). member_path (fst l)" by simp
    ultimately have "set_all (prop_leaves kvs) (Obj (acc @ [kv])) = Inr (Obj ((acc @ [kv]) @ kvs))"
      using 9(2) p d by simp
    with child show "set_all (prop_leaves (kv # kvs)) (Obj acc) = Inr (Obj (acc @ kv # kvs))"
      by (simp add: set_all_append del: set_all.simps)
  qed
next
  case (11 i v vs)
  show ?case
  proof (intro allI impI)
    fix acc :: "jsval list"
    assume p: "plain_items (v # vs)" and i: "i = length acc"
      and mp: "\<forall>l\<in>set (item_leaves i (v # vs)). member_path (fst l)"
    let ?c = "if isCollection v then map (\<lambda>l. (idx_note i # fst l, snd l)) (leaf_notes v)
              else [([idx_note i], v)]"
    have k: "normalizeNote (idx_note i) = Inr (NIdx i)" by (rule normalizeNote_idx)
    from p have pv: "plain v" by simp
    from child_leaves_first [OF pv, of "idx_note i"] obtain q x where "(idx_note i # q, x) \<in> set ?c"
      by blast
    then have "(idx_note i # q, x) \<in> set (item_leaves i (v # vs))" by simp
    from bspec [OF mp this] have "member_path (idx_note i # q)" by simp
    from member_path_Cons [OF this k] have mn: "member_note (NIdx i)" by simp
    have mpv: "\<forall>l\<in>set (leaf_notes v). member_path (fst l)" if "isCollection v"
    proof
      fix l
      assume "l \<in> set (leaf_notes v)"
      with that have "(idx_note i # fst l, snd l) \<in> set (item_leaves i (v # vs))" by auto
      with mp have "member_path (idx_note i # fst l)" by force
      from member_path_Cons [OF this k] show "member_path (fst l)" by simp
    qed
    have inner: "isCollection v \<Longrightarrow> set_all (leaf_notes v) (empty_like v) = Inr v"
      using 11(1) pv mpv by simp
    have "set_all ?c (Arr acc) = assign (Arr acc) (NIdx i) v"
      using i by (intro set_all_child [OF k _ _ mn pv inner]) (simp_all add: note_fits_def)
    also have "\<dots> = Inr (Arr (acc @ [v]))" using i mn assign_arr_new by simp
    finally have child: "set_all ?c (Arr acc) = Inr (Arr (acc @ [v]))" .
    from p have "plain_items vs" by simp
    moreover have "Suc i = length (acc @ [v])" using i by simp
    moreover from mp have "\<forall>l\<in>set (item_leaves (Suc i) vs). member_path (fst l)" by simp
    ultimately have "set_all (item_leaves (Suc i) vs) (Arr (acc @ [v])) = Inr (Arr ((acc @ [v]) @ vs))"
      using 11(2) by blast
    with child show "set_all (item_leaves i (v # vs)) (Arr acc) = Inr (Arr (acc @ v # vs))"
      by (simp add: set_all_append del: set_all.simps)
  qed
qed simp_all

subsection \<open>Joining and splitting the Notes of a leaf\<close>

lemma walk_note_ne: "walk_note n \<Longrightarrow> n \<noteq> []"
  by (auto simp: walk_note_def re_VAR_def idx_note_def)

lemma joinNotes_tail:
  "\<forall>n\<in>set (n0 # ns). n \<noteq> [] \<Longrightarrow> joinNotes (n0 # ns) = n0 @ join_tail ns"
  by (induction ns arbitrary: n0) auto

lemma join_tail_append: "join_tail (ps @ qs) = join_tail ps @ join_tail qs"
  by (induction ps) auto

lemma joinNotes_ne: "\<forall>n\<in>set ps. n \<noteq> [] \<Longrightarrow> ps \<noteq> [] \<Longrightarrow> joinNotes ps \<noteq> []"
  by (cases ps) (auto simp: joinNotes_tail simp del: joinNotes.simps)

lemma joinNotes_pair:
  assumes "\<forall>x\<in>set ps. x \<noteq> []" "n \<noteq> []"
  shows "joinNotes [joinNotes ps, n] = joinNotes (ps @ [n])"
proof (cases ps)
  case Nil
  then show ?thesis by simp
next
  case (Cons p ps')
  with assms have ne: "joinNotes ps \<noteq> []" by (intro joinNotes_ne) auto
  from Cons assms have "joinNotes (ps @ [n]) = p @ join_tail (ps' @ [n])"
    using joinNotes_tail [of p "ps' @ [n]"] by auto
  moreover from Cons assms have "joinNotes ps = p @ join_tail ps'"
    using joinNotes_tail [of p ps'] by auto
  ultimately show ?thesis using ne assms(2) by (simp add: join_tail_append)
qed

lemma join_tail_start:
  "\<forall>n\<in>set ns. walk_note n \<Longrightarrow> join_tail ns = [] \<or> hd (join_tail ns) \<in> {CHR ''.'', CHR ''[''}"
  by (cases ns) (auto dest: walk_note_ne simp: hd_append)

lemma tail_start_not_var:
  assumes "s = [] \<or> hd s \<in> {CHR ''.'', CHR ''[''}" "list_all is_var_char w"
  shows "takeWhile is_var_char (w @ s) = w" "dropWhile is_var_char (w @ s) = s"
proof -
  have nv: "\<not> is_var_char (CHR ''.'')" "\<not> is_var_char (CHR ''['')"
    by (simp_all add: is_var_char_def is_var_start_def is_digit_def)
  from assms(1) nv have t: "takeWhile is_var_char s = []" by (cases s) auto
  from assms(1) nv have d: "dropWhile is_var_char s = s" by (cases s) auto
  from assms(2) have a: "\<forall>x\<in>set w. is_var_char x" by (simp add: list_all_iff)
  from a t show "takeWhile is_var_char (w @ s) = w" by (simp add: takeWhile_append2)
  from a d show "dropWhile is_var_char (w @ s) = s" by (simp add: dropWhile_append2)
qed

lemma tail_start_not_digit:
  assumes "list_all is_digit w"
  shows "takeWhile is_digit (w @ CHR '']'' # s) = w" "dropWhile is_digit (w @ CHR '']'' # s) = CHR '']'' # s"
proof -
  have nd: "\<not> is_digit (CHR '']'')" by (simp add: is_digit_def)
  from assms have a: "\<forall>x\<in>set w. is_digit x" by (simp add: list_all_iff)
  from a nd show "takeWhile is_digit (w @ CHR '']'' # s) = w" by (simp add: takeWhile_append2)
  from a nd show "dropWhile is_digit (w @ CHR '']'' # s) = CHR '']'' # s" by (simp add: dropWhile_append2)
qed

lemma match_note_walk:
  assumes "walk_note n" "s = [] \<or> hd s \<in> {CHR ''.'', CHR ''[''}"
  shows "match_note False True (n @ s) = Some (n, s)"
proof (cases "re_VAR n")
  case True
  then obtain c w where n: "n = c # w" and c: "is_var_start c" and w: "list_all is_var_char w"
    by (cases n) (auto simp: re_VAR_def)
  from c have "c \<noteq> CHR ''[''" by (auto simp: is_var_start_def)
  then have "match_bracket False True (n @ s) = None" using n by (simp add: match_bracket_def)
  with n c tail_start_not_var [OF assms(2) w] show ?thesis by (simp add: match_note_def)
next
  case False
  with assms(1) obtain i where n: "n = idx_note i" by (auto simp: walk_note_def)
  from show_nat_digits [of i] obtain d ds where ds: "show_nat i = d # ds" "is_digit d" "list_all is_digit ds"
    by (cases "show_nat i") auto
  have "match_bracket False True (n @ s) = Some (n, s)"
    using ds tail_start_not_digit [OF ds(3), of s] n
    by (simp add: match_bracket_def idx_note_def)
  then show ?thesis by (simp add: match_note_def)
qed

lemma match_all_dot:
  "match_all False True (CHR ''.'' # s) = match_all False True s"
proof -
  have "match_note False True (CHR ''.'' # s) = None"
    by (simp add: match_note_def match_bracket_def is_var_start_def)
  then show ?thesis by simp
qed

lemma match_all_tail:
  "\<forall>n\<in>set ns. walk_note n \<Longrightarrow> match_all False True (join_tail ns) = ns"
proof (induction ns)
  case Nil
  then show ?case by simp
next
  case (Cons n ns)
  from Cons.prems have wn: "walk_note n" and t: "\<forall>n\<in>set ns. walk_note n" by simp_all
  from t have st: "join_tail ns = [] \<or> hd (join_tail ns) \<in> {CHR ''.'', CHR ''[''}"
    by (rule join_tail_start)
  from t Cons.IH have ih: "match_all False True (join_tail ns) = ns" by simp
  from wn obtain c w where n: "n = c # w" by (cases n) (auto dest: walk_note_ne)
  have "match_all False True (n @ join_tail ns) = n # match_all False True (join_tail ns)"
    using match_note_walk [OF wn st] n by simp
  with ih show ?case by (simp add: match_all_dot del: match_all.simps)
qed

lemma match_all_join:
  assumes "\<forall>n\<in>set (n0 # ns). walk_note n"
  shows "match_all False True (joinNotes (n0 # ns)) = n0 # ns"
proof -
  from assms have wn: "walk_note n0" and t: "\<forall>n\<in>set ns. walk_note n" by simp_all
  from t have st: "join_tail ns = [] \<or> hd (join_tail ns) \<in> {CHR ''.'', CHR ''[''}"
    by (rule join_tail_start)
  from assms have j: "joinNotes (n0 # ns) = n0 @ join_tail ns"
    by (intro joinNotes_tail) (auto dest: walk_note_ne)
  from wn obtain c w where n: "n0 = c # w" by (cases n0) (auto dest: walk_note_ne)
  have "match_all False True (n0 @ join_tail ns) = n0 # match_all False True (join_tail ns)"
    using match_note_walk [OF wn st] n by simp
  with j t show ?thesis by (simp add: match_all_tail del: match_all.simps joinNotes.simps)
qed

lemma rests_walk_note:
  assumes "walk_note n" "t = [] \<or> hd t \<in> {CHR ''.'', CHR ''[''}"
  shows "t \<in> set (first_rests False (n @ t))"
    and "t \<in> set (follow_rests False ((if hd n = CHR ''['' then [] else ''.'') @ n @ t))"
proof -
  show "t \<in> set (first_rests False (n @ t))"
  proof (cases "re_VAR n")
    case True
    then obtain c w where n: "n = c # w" and c: "is_var_start c" and w: "list_all is_var_char w"
      by (cases n) (auto simp: re_VAR_def)
    with tail_start_not_var(2) [OF assms(2) w] show ?thesis by (simp add: first_rests_def)
  next
    case False
    with assms(1) obtain i where n: "n = idx_note i" by (auto simp: walk_note_def)
    from show_nat_digits [of i] obtain d ds where ds: "show_nat i = d # ds" "is_digit d" "list_all is_digit ds"
      by (cases "show_nat i") auto
    with tail_start_not_digit(2) [OF ds(3), of t] n show ?thesis
      by (simp add: first_rests_def idx_note_def)
  qed
  show "t \<in> set (follow_rests False ((if hd n = CHR ''['' then [] else ''.'') @ n @ t))"
  proof (cases "re_VAR n")
    case True
    then obtain c w where n: "n = c # w" and c: "is_var_start c" and w: "list_all is_var_char w"
      by (cases n) (auto simp: re_VAR_def)
    from c have "c \<noteq> CHR ''[''" by (auto simp: is_var_start_def)
    with n c tail_start_not_var(2) [OF assms(2) w] show ?thesis by (simp add: follow_rests_def)
  next
    case False
    with assms(1) obtain i where n: "n = idx_note i" by (auto simp: walk_note_def)
    from show_nat_digits [of i] obtain d ds where ds: "show_nat i = d # ds" "is_digit d" "list_all is_digit ds"
      by (cases "show_nat i") auto
    with tail_start_not_digit(2) [OF ds(3), of t] n show ?thesis
      by (simp add: follow_rests_def idx_note_def)
  qed
qed

lemma valid_tail_join_tail: "\<forall>n\<in>set ns. walk_note n \<Longrightarrow> valid_tail False (join_tail ns)"
proof (induction ns)
  case Nil
  then show ?case by (simp add: valid_tail.simps)
next
  case (Cons n ns)
  from Cons.prems have wn: "walk_note n" and t: "\<forall>n\<in>set ns. walk_note n" by simp_all
  from t have st: "join_tail ns = [] \<or> hd (join_tail ns) \<in> {CHR ''.'', CHR ''[''}"
    by (rule join_tail_start)
  from t Cons.IH have ih: "valid_tail False (join_tail ns)" by simp
  from rests_walk_note(2) [OF wn st] ih
  have "list_ex (valid_tail False)
      (follow_rests False ((if hd n = CHR ''['' then [] else ''.'') @ n @ join_tail ns))"
    unfolding list_ex_iff by blast
  then show ?case by (subst valid_tail.simps) simp
qed

lemma Notation_split_join:
  assumes "\<forall>n\<in>set q. walk_note n" "q \<noteq> []"
  shows "Notation_split (joinNotes q) = Inr q"
proof -
  from assms(2) obtain n0 ns where q: "q = n0 # ns" by (cases q) auto
  with assms(1) have wn: "walk_note n0" and t: "\<forall>n\<in>set ns. walk_note n" by simp_all
  from t have st: "join_tail ns = [] \<or> hd (join_tail ns) \<in> {CHR ''.'', CHR ''[''}"
    by (rule join_tail_start)
  from assms(1) q have j: "joinNotes q = n0 @ join_tail ns"
    using joinNotes_tail [of n0 ns] by (auto dest: walk_note_ne)
  from rests_walk_note(1) [OF wn st] valid_tail_join_tail [OF t]
  have "Notation_isValid (joinNotes q)"
    unfolding Notation_isValid_def list_ex_iff j by blast
  moreover from assms(1) q have "match_all False True (joinNotes q) = q"
    using match_all_join [of n0 ns] by simp
  ultimately show ?thesis by (simp add: Notation_split_def)
qed

lemma joinNotes_inj:
  assumes "\<forall>n\<in>set q. walk_note n" "q \<noteq> []" "\<forall>n\<in>set q'. walk_note n" "q' \<noteq> []"
    "joinNotes q = joinNotes q'"
  shows "q = q'"
proof -
  from Notation_split_join [OF assms(1,2)] have "Notation_split (joinNotes q') = Inr q"
    unfolding assms(5) .
  moreover note Notation_split_join [OF assms(3,4)]
  ultimately have "(Inr q :: error + string list) = Inr q'" by (rule trans [OF sym])
  then show ?thesis by (simp only: sum.inject)
qed

lemma joinNotes_starts_var:
  assumes "re_VAR n0" "\<forall>n\<in>set ns. n \<noteq> []"
  shows "\<exists>c s. joinNotes (n0 # ns) = c # s \<and> is_var_start c"
proof -
  from assms(1) obtain c w where n: "n0 = c # w" "is_var_start c" by (cases n0) (auto simp: re_VAR_def)
  with assms(2) have "joinNotes (n0 # ns) = n0 @ join_tail ns"
    by (intro joinNotes_tail) auto
  with n show ?thesis by simp
qed

lemma trim_ne: "is_var_start c \<Longrightarrow> trim (c # s) \<noteq> []"
proof -
  assume c: "is_var_start c"
  then have "dropWhile is_space (c # s) = c # s" by (simp add: var_start_not_space)
  moreover have "dropWhile is_space (rev (c # s)) \<noteq> []"
    using c by (auto simp: dropWhile_eq_Nil_conv var_start_not_space)
  ultimately show ?thesis by (simp add: trim_def del: rev.simps)
qed

lemma index_key_starts_digit: "is_index_key (c # s) \<Longrightarrow> is_digit c"
  by (simp add: is_index_key_def)

subsection \<open>The walk of a plain tree\<close>

lemma idx_note_walk: "walk_note (idx_note i)"
  by (auto simp: walk_note_def)

lemma idx_note_inj:
  assumes "idx_note i = idx_note j"
  shows "i = j"
proof -
  from assms have "normalizeNote (idx_note i) = normalizeNote (idx_note j)" by (rule arg_cong)
  then have "(Inr (NIdx i) :: error + nnote) = Inr (NIdx j)" unfolding normalizeNote_idx .
  then show ?thesis by (simp only: sum.inject nnote.inject)
qed

lemma var_walk: "re_VAR n \<Longrightarrow> walk_note n"
  by (simp add: walk_note_def)

lemma leaves_walk_notes:
  "plain v \<longrightarrow> (\<forall>l\<in>set (leaf_notes v). \<forall>n\<in>set (fst l). walk_note n)"
  "plain_props kvs \<longrightarrow> (\<forall>l\<in>set (prop_leaves kvs). \<forall>n\<in>set (fst l). walk_note n)"
  "plain_items xs \<longrightarrow> (\<forall>l\<in>set (item_leaves i xs). \<forall>n\<in>set (fst l). walk_note n)"
  by (induction v and kvs and i xs rule: leaf_notes_prop_leaves_item_leaves.induct)
    (auto simp: idx_note_walk var_walk)

lemma prop_leaves_first: "l \<in> set (prop_leaves kvs) \<Longrightarrow> hd (fst l) \<in> fst ` set kvs"
  by (induction kvs) (auto split: if_splits)

lemma item_leaves_first:
  "l \<in> set (item_leaves i xs) \<Longrightarrow> \<exists>j\<ge>i. hd (fst l) = idx_note j"
proof (induction xs arbitrary: i)
  case Nil
  then show ?case by simp
next
  case (Cons v vs)
  from Cons.prems consider "hd (fst l) = idx_note i" | "l \<in> set (item_leaves (Suc i) vs)"
    by (auto split: if_splits)
  then show ?case
  proof cases
    case 1
    then show ?thesis by auto
  next
    case 2
    from Cons.IH [OF this] show ?thesis by (auto intro: Suc_leD)
  qed
qed

lemma distinct_prefixed:
  "distinct (map fst ls) \<Longrightarrow> distinct (map fst (map (\<lambda>l. (n # fst l, snd l)) ls))"
  by (simp add: distinct_map inj_on_def comp_def)

lemma leaves_distinct:
  "plain v \<longrightarrow> distinct (map fst (leaf_notes v))"
  "plain_props kvs \<longrightarrow> distinct (map fst kvs) \<longrightarrow> distinct (map fst (prop_leaves kvs))"
  "plain_items xs \<longrightarrow> distinct (map fst (item_leaves i xs))"
proof (induction v and kvs and i xs rule: leaf_notes_prop_leaves_item_leaves.induct)
  case (1 kvs)
  then show ?case by simp
next
  case (2 xs)
  then show ?case by simp
next
  case (9 kv kvs)
  show ?case
  proof (intro impI)
    assume p: "plain_props (kv # kvs)" and d: "distinct (map fst (kv # kvs))"
    let ?c = "if isCollection (snd kv) then map (\<lambda>l. (fst kv # fst l, snd l)) (leaf_notes (snd kv))
              else [([fst kv], snd kv)]"
    have dc: "distinct (map fst ?c)"
      using 9(1) p distinct_prefixed [of "leaf_notes (snd kv)" "fst kv"] by auto
    have hc: "\<forall>l\<in>set ?c. hd (fst l) = fst kv" by auto
    have hr: "\<forall>l\<in>set (prop_leaves kvs). hd (fst l) \<noteq> fst kv"
    proof
      fix l
      assume "l \<in> set (prop_leaves kvs)"
      from prop_leaves_first [OF this] have "hd (fst l) \<in> fst ` set kvs" .
      moreover from d have "fst kv \<notin> fst ` set kvs" by simp
      ultimately show "hd (fst l) \<noteq> fst kv" by metis
    qed
    from hc hr have "fst ` set ?c \<inter> fst ` set (prop_leaves kvs) = {}" by force
    with dc 9(2) p d show "distinct (map fst (prop_leaves (kv # kvs)))" by simp
  qed
next
  case (11 i v vs)
  show ?case
  proof (intro impI)
    assume p: "plain_items (v # vs)"
    let ?c = "if isCollection v then map (\<lambda>l. (idx_note i # fst l, snd l)) (leaf_notes v)
              else [([idx_note i], v)]"
    have dc: "distinct (map fst ?c)"
      using 11(1) p distinct_prefixed [of "leaf_notes v" "idx_note i"] by auto
    have hc: "\<forall>l\<in>set ?c. hd (fst l) = idx_note i" by auto
    have hr: "\<forall>l\<in>set (item_leaves (Suc i) vs). hd (fst l) \<noteq> idx_note i"
    proof
      fix l
      assume "l \<in> set (item_leaves (Suc i) vs)"
      from item_leaves_first [OF this] obtain j where j: "Suc i \<le> j" "hd (fst l) = idx_note j"
        by blast
      show "hd (fst l) \<noteq> idx_note i"
      proof
        assume "hd (fst l) = idx_note i"
        with j(2) have "idx_note j = idx_note i" by simp
        from idx_note_inj [OF this] j(1) show False by simp
      qed
    qed
    from hc hr have "fst ` set ?c \<inter> fst ` set (item_leaves (Suc i) vs) = {}" by force
    with dc 11(2) p show "distinct (map fst (item_leaves i (v # vs)))" by simp
  qed
qed simp_all

lemma walk_leaves:
  "rv = False \<longrightarrow> byLevel = False \<longrightarrow>
     (\<forall>ps. par = joinNotes ps \<longrightarrow> (\<forall>n\<in>set ps. walk_note n) \<longrightarrow> plain v \<longrightarrow>
        map leaf_of (each_walk rv byLevel par v) =
        map (\<lambda>l. (joinNotes (ps @ fst l), snd l)) (leaf_notes v))"
  "rv = False \<longrightarrow> byLevel = False \<longrightarrow>
     (\<forall>ps. par = joinNotes ps \<longrightarrow> (\<forall>n\<in>set ps. walk_note n) \<longrightarrow> plain_props kvs \<longrightarrow>
        map leaf_of (each_props rv byLevel par kvs) =
        map (\<lambda>l. (joinNotes (ps @ fst l), snd l)) (prop_leaves kvs))"
  "rv = False \<longrightarrow> byLevel = False \<longrightarrow>
     (\<forall>ps. par = joinNotes ps \<longrightarrow> (\<forall>n\<in>set ps. walk_note n) \<longrightarrow> plain_items xs \<longrightarrow>
        map leaf_of (each_items rv byLevel par i xs) =
        map (\<lambda>l. (joinNotes (ps @ fst l), snd l)) (item_leaves i xs))"
proof (induction rv byLevel par v and rv byLevel par kvs and rv byLevel par i xs
    rule: each_walk_each_props_each_items.induct)
  case (9 rv byLevel par kv kvs)
  show ?case
  proof (intro impI allI)
    fix ps
    assume rv: "rv = False" and bl: "byLevel = False" and par: "par = joinNotes ps"
      and ps: "\<forall>n\<in>set ps. walk_note n" and p: "plain_props (kv # kvs)"
    from p have k: "walk_note (fst kv)" by (simp add: walk_note_def)
    from ps k have j: "Notation_join [par, fst kv] = joinNotes (ps @ [fst kv])"
      unfolding par Notation_join_def by (intro joinNotes_pair) (auto dest: walk_note_ne)
    from ps k have ps': "\<forall>n\<in>set (ps @ [fst kv]). walk_note n" by simp
    from 9(1) rv bl j ps' p
    have w: "map leaf_of (each_walk rv byLevel (Notation_join [par, fst kv]) (snd kv)) =
        map (\<lambda>l. (joinNotes ((ps @ [fst kv]) @ fst l), snd l)) (leaf_notes (snd kv))"
      by simp
    from 9(2) rv bl par ps p
    have r: "map leaf_of (each_props rv byLevel par kvs) =
        map (\<lambda>l. (joinNotes (ps @ fst l), snd l)) (prop_leaves kvs)"
      by simp
    show "map leaf_of (each_props rv byLevel par (kv # kvs)) =
        map (\<lambda>l. (joinNotes (ps @ fst l), snd l)) (prop_leaves (kv # kvs))"
    proof (cases "isCollection (snd kv)")
      case True
      with w r rv bl show ?thesis by (simp add: comp_def)
    next
      case False
      then have "each_walk rv byLevel (Notation_join [par, fst kv]) (snd kv) = []"
        by (cases "snd kv") auto
      with False r bl j show ?thesis by (simp add: leaf_of_def)
    qed
  qed
next
  case (11 rv byLevel par i v vs)
  show ?case
  proof (intro impI allI)
    fix ps
    assume rv: "rv = False" and bl: "byLevel = False" and par: "par = joinNotes ps"
      and ps: "\<forall>n\<in>set ps. walk_note n" and p: "plain_items (v # vs)"
    have n: "''['' @ show_nat i @ '']'' = idx_note i" by (simp add: idx_note_def)
    have n': "CHR ''['' # show_nat i @ '']'' = idx_note i" by (simp add: idx_note_def)
    have k: "walk_note (idx_note i)" by (rule idx_note_walk)
    from ps k have j: "Notation_join [par, idx_note i] = joinNotes (ps @ [idx_note i])"
      unfolding par Notation_join_def by (intro joinNotes_pair) (auto dest: walk_note_ne)
    from ps k have ps': "\<forall>n\<in>set (ps @ [idx_note i]). walk_note n" by simp
    from 11(1) [OF n [symmetric]] rv bl j ps' p
    have w: "map leaf_of (each_walk rv byLevel (Notation_join [par, idx_note i]) v) =
        map (\<lambda>l. (joinNotes ((ps @ [idx_note i]) @ fst l), snd l)) (leaf_notes v)"
      by (simp add: n)
    have r: "map leaf_of (each_items rv byLevel par (Suc i) vs) =
        map (\<lambda>l. (joinNotes (ps @ fst l), snd l)) (item_leaves (Suc i) vs)"
      using 11(3) [OF n [symmetric] refl] rv bl par ps p by simp
    show "map leaf_of (each_items rv byLevel par i (v # vs)) =
        map (\<lambda>l. (joinNotes (ps @ fst l), snd l)) (item_leaves i (v # vs))"
    proof (cases "isCollection v")
      case True
      with w r rv bl show ?thesis by (simp add: comp_def Let_def n')
    next
      case False
      then have "each_walk rv byLevel (Notation_join [par, idx_note i]) v = []"
        by (cases v) auto
      with False r rv bl j show ?thesis by (simp add: leaf_of_def Let_def n')
    qed
  qed
qed simp_all

subsection \<open>The round trip\<close>

lemma plain_props_var: "plain_props kvs \<Longrightarrow> k \<in> fst ` set kvs \<Longrightarrow> re_VAR k"
  by (induction kvs) auto

lemma leaf_root_var:
  assumes "plain_props kvs" "l \<in> set (prop_leaves kvs)"
  shows "\<exists>n0 ns. fst l = n0 # ns \<and> re_VAR n0"
proof -
  from leaves_notes_ne(2) assms(2) have "fst l \<noteq> []" by blast
  then obtain n0 ns where l: "fst l = n0 # ns" by (cases "fst l") auto
  from prop_leaves_first [OF assms(2)] l have "n0 \<in> fst ` set kvs" by simp
  from plain_props_var [OF assms(1) this] l show ?thesis by blast
qed

lemma flat_key:
  assumes "plain_props kvs" "l \<in> set (prop_leaves kvs)"
  shows "\<not> is_index_key (joinNotes (fst l))" "trim (joinNotes (fst l)) \<noteq> []"
    "Notation_split (joinNotes (fst l)) = Inr (fst l)"
proof -
  from leaf_root_var [OF assms] obtain n0 ns where l: "fst l = n0 # ns" and v: "re_VAR n0"
    by blast
  from leaves_walk_notes(2) assms have w: "\<forall>n\<in>set (fst l). walk_note n" by blast
  with l have "\<forall>n\<in>set ns. n \<noteq> []" by (auto dest: walk_note_ne)
  from joinNotes_starts_var [OF v this] l obtain c s
    where j: "joinNotes (fst l) = c # s" and c: "is_var_start c" by auto
  from c have "\<not> is_digit c" by (rule var_start_not_digit)
  with index_key_starts_digit [of c s] j show "\<not> is_index_key (joinNotes (fst l))" by auto
  from trim_ne [OF c, of s] j show "trim (joinNotes (fst l)) \<noteq> []" by simp
  from l have "fst l \<noteq> []" by simp
  from Notation_split_join [OF w this] show "Notation_split (joinNotes (fst l)) = Inr (fst l)" .
qed

lemma flat_keys_distinct:
  assumes "plain_props kvs" "distinct (map fst kvs)"
  shows "distinct (map (\<lambda>l. joinNotes (fst l)) (prop_leaves kvs))"
proof -
  from leaves_distinct(2) assms have d: "distinct (map fst (prop_leaves kvs))" by blast
  have "inj_on joinNotes (set (map fst (prop_leaves kvs)))"
  proof (rule inj_onI)
    fix q q'
    assume q: "q \<in> set (map fst (prop_leaves kvs))" and q': "q' \<in> set (map fst (prop_leaves kvs))"
      and e: "joinNotes q = joinNotes q'"
    from q obtain l where l: "l \<in> set (prop_leaves kvs)" "q = fst l" by auto
    from q' obtain l' where l': "l' \<in> set (prop_leaves kvs)" "q' = fst l'" by auto
    from leaves_walk_notes(2) [of kvs] assms(1) l have 1: "\<forall>n\<in>set q. walk_note n" by simp
    from leaves_walk_notes(2) [of kvs] assms(1) l' have 2: "\<forall>n\<in>set q'. walk_note n" by simp
    from leaves_notes_ne(2) [of l kvs] l have 3: "q \<noteq> []" by simp
    from leaves_notes_ne(2) [of l' kvs] l' have 4: "q' \<noteq> []" by simp
    from joinNotes_inj [OF 1 3 2 4 e] show "q = q'" .
  qed
  with d have "distinct (map joinNotes (map fst (prop_leaves kvs)))" by (simp only: distinct_map)
  then show ?thesis by (simp add: comp_def)
qed

lemma obj_set_new:
  "k \<notin> set (map fst acc) \<Longrightarrow> \<not> is_index_key k \<Longrightarrow> k \<noteq> ''__proto__'' \<Longrightarrow>
   obj_set k v acc = acc @ [(k, v)]"
  by (simp add: obj_set_def obj_put_def)

lemma foldl_obj_set_new:
  "distinct (map fst es) \<Longrightarrow>
   \<forall>k\<in>set (map fst es). \<not> is_index_key k \<and> k \<noteq> ''__proto__'' \<Longrightarrow>
   set (map fst es) \<inter> set (map fst acc) = {} \<Longrightarrow>
   foldl (\<lambda>acc (p, k, v). obj_set p v acc) acc es = acc @ map leaf_of es"
proof (induction es arbitrary: acc)
  case Nil
  then show ?case by simp
next
  case (Cons e es)
  obtain p k v where e: "e = (p, k, v)" by (cases e) auto
  from Cons.prems e have 1: "p \<notin> set (map fst acc)" "\<not> is_index_key p" "p \<noteq> ''__proto__''"
    by auto
  from Cons.prems e have 2: "distinct (map fst es)"
    "\<forall>k\<in>set (map fst es). \<not> is_index_key k \<and> k \<noteq> ''__proto__''"
    "set (map fst es) \<inter> set (map fst (acc @ [(p, v)])) = {}"
    by auto
  from Cons.IH [OF 2] obj_set_new [OF 1] e show ?case by (simp add: leaf_of_def)
qed

lemma str_includes_self: "str_includes s s"
  by (cases s) simp_all

lemma reserved_proto: "reserved ''__proto__''"
  unfolding reserved_def using str_includes_self [of "''__proto__''"] by blast

lemma walk_leaves_root:
  assumes "plain_props kvs"
  shows "map leaf_of (each_props False False [] kvs) =
    map (\<lambda>l. (joinNotes (fst l), snd l)) (prop_leaves kvs)"
proof -
  from walk_leaves(2) [of False False "[]" kvs]
  have a: "\<And>ps. [] = joinNotes ps \<Longrightarrow> (\<forall>n\<in>set ps. walk_note n) \<Longrightarrow> plain_props kvs \<Longrightarrow>
      map leaf_of (each_props False False [] kvs) =
      map (\<lambda>l. (joinNotes (ps @ fst l), snd l)) (prop_leaves kvs)"
    by blast
  from a [of "[]"] assms show ?thesis by simp
qed

lemma flatten_plain:
  assumes "plain_props kvs" "distinct (map fst kvs)"
    "\<forall>e\<in>set (each_walk False False [] (Obj kvs)). \<not> reserved (fst e)"
  shows "flatten_tree (Obj kvs) = Obj (map (\<lambda>l. (joinNotes (fst l), snd l)) (prop_leaves kvs))"
proof -
  let ?es = "each_props False False [] kvs"
  from assms(1)
  have w: "map leaf_of ?es = map (\<lambda>l. (joinNotes (fst l), snd l)) (prop_leaves kvs)"
    by (rule walk_leaves_root)
  have "map fst ?es = map fst (map leaf_of ?es)" by (simp add: leaf_of_def comp_def)
  then have m: "map fst ?es = map (\<lambda>l. joinNotes (fst l)) (prop_leaves kvs)"
    unfolding w by (simp add: comp_def)
  have 1: "distinct (map fst ?es)"
    unfolding m using assms(1,2) by (rule flat_keys_distinct)
  have np: "\<forall>k\<in>set (map fst ?es). k \<noteq> ''__proto__''"
  proof
    fix k
    assume "k \<in> set (map fst ?es)"
    then obtain e where "e \<in> set ?es" "k = fst e" by auto
    with assms(3) have "\<not> reserved k" by simp
    with reserved_proto show "k \<noteq> ''__proto__''" by blast
  qed
  have "\<forall>k\<in>set (map fst ?es). \<not> is_index_key k"
    unfolding m using flat_key(1) [OF assms(1)] by auto
  with np have 2: "\<forall>k\<in>set (map fst ?es). \<not> is_index_key k \<and> k \<noteq> ''__proto__''" by blast
  have 3: "set (map fst ?es) \<inter> set (map fst ([] :: (string \<times> jsval) list)) = {}"
    by simp
  from foldl_obj_set_new [OF 1 2 3] w show ?thesis by (simp add: flatten_tree_def)
qed

lemma merge_each_set_all:
  "source n < length st \<Longrightarrow>
   \<forall>l\<in>set ls. \<not> reserved (joinNotes (fst l)) \<and> trim (joinNotes (fst l)) \<noteq> [] \<and>
     Notation_split (joinNotes (fst l)) = Inr (fst l) \<Longrightarrow>
   merge_each st n (map (\<lambda>l. (joinNotes (fst l), snd l)) ls) Overwrite =
   bindE (set_all ls (deref st (source n))) (\<lambda>t. Inr (st[source n := t]))"
proof (induction ls arbitrary: st)
  case Nil
  then show ?case by (simp add: deref_def)
next
  case (Cons l ls)
  let ?r = "source n"
  from Cons.prems have l: "\<not> reserved (joinNotes (fst l))" "trim (joinNotes (fst l)) \<noteq> []"
    "Notation_split (joinNotes (fst l)) = Inr (fst l)" by auto
  from Cons.prems have rest: "\<forall>l\<in>set ls. \<not> reserved (joinNotes (fst l)) \<and>
     trim (joinNotes (fst l)) \<noteq> [] \<and> Notation_split (joinNotes (fst l)) = Inr (fst l)" by simp
  from l have s: "Notation_set st n (joinNotes (fst l)) (snd l) Overwrite =
      bindE (set_each (snd l) Overwrite (fst l) (deref st ?r)) (\<lambda>t. Inr (st[?r := t]))"
    by (simp add: Notation_set_def tree_set_def)
  show ?case
  proof (cases "set_each (snd l) Overwrite (fst l) (deref st ?r)")
    case (Inl e)
    with s l show ?thesis by simp
  next
    case (Inr t)
    from Cons.prems(1) have len: "?r < length (st[?r := t])" by simp
    from Cons.prems(1) have d: "deref (st[?r := t]) ?r = t" by (simp add: deref_def)
    from Cons.IH [OF len rest] d
    have "merge_each (st[?r := t]) n (map (\<lambda>l. (joinNotes (fst l), snd l)) ls) Overwrite =
        bindE (set_all ls t) (\<lambda>t'. Inr (st[?r := t']))" by simp
    with s l Inr show ?thesis by simp
  qed
qed

lemma walk_reserved:
  assumes "plain_props kvs"
    "\<forall>e\<in>set (each_walk False False [] (Obj kvs)). \<not> reserved (fst e)"
    "l \<in> set (prop_leaves kvs)"
  shows "\<not> reserved (joinNotes (fst l))"
proof -
  let ?es = "each_props False False [] kvs"
  from assms(1)
  have "map leaf_of ?es = map (\<lambda>l. (joinNotes (fst l), snd l)) (prop_leaves kvs)"
    by (rule walk_leaves_root)
  then have "set (map leaf_of ?es) = set (map (\<lambda>l. (joinNotes (fst l), snd l)) (prop_leaves kvs))"
    by simp
  with assms(3) have "(joinNotes (fst l), snd l) \<in> set (map leaf_of ?es)" by auto
  then obtain e where e: "e \<in> set ?es" "leaf_of e = (joinNotes (fst l), snd l)" by auto
  from e(2) have "fst e = joinNotes (fst l)" by (simp add: leaf_of_def)
  with e(1) assms(2) show ?thesis by auto
qed

lemma str_includes_append: "str_includes s sub \<Longrightarrow> str_includes (a @ s) sub"
proof (induction a)
  case Nil
  then show ?case by simp
next
  case (Cons c a)
  then show ?case by simp
qed

lemma str_includes_prefix: "str_includes (sub @ c) sub"
proof (cases "sub @ c")
  case Nil
  then show ?thesis by simp
next
  case (Cons a list)
  have "take (length sub) (sub @ c) = sub" by simp
  with Cons show ?thesis by simp
qed

lemma str_includes_mid: "str_includes (a @ sub @ c) sub"
  by (rule str_includes_append) (rule str_includes_prefix)

lemma joinNotes_includes:
  "\<forall>x\<in>set q. x \<noteq> [] \<Longrightarrow> n \<in> set q \<Longrightarrow> \<exists>a c. joinNotes q = a @ n @ c"
proof (induction q rule: joinNotes.induct)
  case 1
  then show ?case by simp
next
  case (2 x)
  then have "joinNotes [x] = [] @ n @ []" by simp
  then show ?case by blast
next
  case (3 x m ns)
  let ?sep = "if m = [] \<or> hd m = CHR ''['' then [] else ''.''"
  from 3(3) have j: "joinNotes (x # m # ns) = x @ ?sep @ joinNotes (m # ns)" by simp
  show ?case
  proof (cases "n = x")
    case True
    with j have "joinNotes (x # m # ns) = [] @ n @ (?sep @ joinNotes (m # ns))" by simp
    then show ?thesis by blast
  next
    case False
    with 3(4) have "n \<in> set (m # ns)" by simp
    moreover from 3(3) have "x \<noteq> []" "\<forall>x\<in>set (m # ns). x \<noteq> []" by simp_all
    ultimately obtain a c where "joinNotes (m # ns) = a @ n @ c" using 3(2) by blast
    with j have "joinNotes (x # m # ns) = (x @ ?sep @ a) @ n @ c" by simp
    then show ?thesis by blast
  qed
qed

lemma reserved_note:
  assumes "\<forall>x\<in>set q. x \<noteq> []" "''__proto__'' \<in> set q"
  shows "reserved (joinNotes q)"
proof -
  from joinNotes_includes [OF assms] obtain a c where "joinNotes q = a @ ''__proto__'' @ c"
    by blast
  with str_includes_mid [of a "''__proto__''" c] show ?thesis by (simp add: reserved_def)
qed

lemma leaves_indices:
  "plain v \<longrightarrow> short_lists v \<longrightarrow>
     (\<forall>l\<in>set (leaf_notes v). \<forall>j. idx_note j \<in> set (fst l) \<longrightarrow> is_array_index j)"
  "plain_props kvs \<longrightarrow> short_props kvs \<longrightarrow>
     (\<forall>l\<in>set (prop_leaves kvs). \<forall>j. idx_note j \<in> set (fst l) \<longrightarrow> is_array_index j)"
  "plain_items xs \<longrightarrow> short_items xs \<longrightarrow> int (i + length xs) \<le> 4294967295 \<longrightarrow>
     (\<forall>l\<in>set (item_leaves i xs). \<forall>j. idx_note j \<in> set (fst l) \<longrightarrow> is_array_index j)"
proof (induction v and kvs and i xs rule: leaf_notes_prop_leaves_item_leaves.induct)
  case (1 kvs)
  then show ?case by simp
next
  case (2 xs)
  then show ?case by simp
next
  case (9 kv kvs)
  show ?case
  proof (intro impI ballI allI)
    fix l j
    assume p: "plain_props (kv # kvs)" and sh: "short_props (kv # kvs)"
      and l: "l \<in> set (prop_leaves (kv # kvs))" and j: "idx_note j \<in> set (fst l)"
    from p have "re_VAR (fst kv)" by simp
    moreover have "\<not> re_VAR (idx_note j)"
      by (simp add: re_VAR_def idx_note_def not_var_start_bracket)
    ultimately have nk: "idx_note j \<noteq> fst kv" by metis
    from l consider l' where "isCollection (snd kv)" "l' \<in> set (leaf_notes (snd kv))"
        "fst l = fst kv # fst l'"
      | "fst l = [fst kv]" | "l \<in> set (prop_leaves kvs)"
      by (fastforce split: if_splits)
    then show "is_array_index j"
    proof cases
      case 1
      note l' = 1(2,3)
      with j nk have "idx_note j \<in> set (fst l')" by auto
      with 9(1) 1(1) p sh l'(1) show ?thesis by auto
    next
      case 2
      with j nk show ?thesis by simp
    next
      case 3
      with 9(2) p sh j show ?thesis by auto
    qed
  qed
next
  case (11 i v vs)
  show ?case
  proof (intro impI ballI allI)
    fix l j
    assume p: "plain_items (v # vs)" and sh: "short_items (v # vs)"
      and b: "int (i + length (v # vs)) \<le> 4294967295"
      and l: "l \<in> set (item_leaves i (v # vs))" and j: "idx_note j \<in> set (fst l)"
    from b have bi: "is_array_index i" by (simp add: is_array_index_def)
    from b have b': "int (Suc i + length vs) \<le> 4294967295" by simp
    from l consider l' where "isCollection v" "l' \<in> set (leaf_notes v)"
        "fst l = idx_note i # fst l'"
      | "fst l = [idx_note i]" | "l \<in> set (item_leaves (Suc i) vs)"
      by (fastforce split: if_splits)
    then show "is_array_index j"
    proof cases
      case 1
      note c = 1(1) and l' = 1(2,3)
      from l' j consider "idx_note j = idx_note i" | "idx_note j \<in> set (fst l')" by auto
      then show ?thesis
      proof cases
        case 1
        from idx_note_inj [OF this] bi show ?thesis by simp
      next
        case 2
        with 11(1) c p sh l'(1) show ?thesis by auto
      qed
    next
      case 2
      with j have "idx_note j = idx_note i" by simp
      from idx_note_inj [OF this] bi show ?thesis by simp
    next
      case 3
      with 11(2) p sh b' j show ?thesis by auto
    qed
  qed
qed simp_all

lemma leaves_member_path:
  assumes "plain_props kvs" "short_props kvs"
    "\<forall>e\<in>set (each_walk False False [] (Obj kvs)). \<not> reserved (fst e)"
    "l \<in> set (prop_leaves kvs)"
  shows "member_path (fst l)"
proof -
  from leaves_walk_notes(2) [of kvs] assms(1,4) have w: "\<forall>n\<in>set (fst l). walk_note n" by simp
  then have ne: "\<forall>n\<in>set (fst l). n \<noteq> []" by (auto dest: walk_note_ne)
  from walk_reserved [OF assms(1,3,4)] have nr: "\<not> reserved (joinNotes (fst l))" .
  with reserved_note [OF ne] have np: "''__proto__'' \<notin> set (fst l)" by blast
  from leaves_indices(2) [of kvs] assms(1,2,4)
  have ix: "\<forall>j. idx_note j \<in> set (fst l) \<longrightarrow> is_array_index j" by blast
  have "\<forall>n\<in>set (fst l). (case normalizeNote n of Inl e \<Rightarrow> True | Inr m \<Rightarrow> member_note m)"
  proof
    fix n
    assume n: "n \<in> set (fst l)"
    with w have "walk_note n" by simp
    then consider "re_VAR n" | j where "n = idx_note j" by (auto simp: walk_note_def)
    then show "case normalizeNote n of Inl e \<Rightarrow> True | Inr m \<Rightarrow> member_note m"
    proof cases
      case 1
      with n np show ?thesis by (auto simp: normalizeNote_var)
    next
      case 2
      with n ix show ?thesis by (simp add: normalizeNote_idx)
    qed
  qed
  then show ?thesis by (simp add: member_path_def list_all_iff)
qed

lemma expand_flat:
  assumes "plain_props kvs" "distinct (map fst kvs)"
    "\<forall>e\<in>set (each_walk False False [] (Obj kvs)). \<not> reserved (fst e)"
    "source n < length st" "deref st (source n) = Obj []" "short_props kvs"
  shows "merge_each st n (map (\<lambda>l. (joinNotes (fst l), snd l)) (prop_leaves kvs)) Overwrite =
    Inr (st[source n := Obj kvs])"
proof -
  have c: "\<forall>l\<in>set (prop_leaves kvs). \<not> reserved (joinNotes (fst l)) \<and>
     trim (joinNotes (fst l)) \<noteq> [] \<and> Notation_split (joinNotes (fst l)) = Inr (fst l)"
    using walk_reserved [OF assms(1,3)] flat_key(2,3) [OF assms(1)] by blast
  have mp: "\<forall>l\<in>set (prop_leaves kvs). member_path (fst l)"
    using leaves_member_path [OF assms(1,6,3)] by blast
  from build_tree(2) [of kvs] assms(1,2) mp
  have b: "set_all (prop_leaves kvs) (Obj []) = Inr (Obj kvs)" by simp
  from merge_each_set_all [OF assms(4) c] b assms(5) show ?thesis by simp
qed

text \<open>
  Claim C3, as the code has it: for a tree that is a map, whose keys at every depth are
  plain identifiers, distinct within their map, whose nested maps and lists are not
  empty, and none of whose flattened notations contains \<open>__proto__\<close>, \<open>prototype\<close> or
  \<open>constructor\<close>, \<open>flatten\<close> and then \<open>expand\<close> complete and the source of the
  result is equal to the tree. (The claim states this for every tree.) The lists of the
  tree are lists of the program: none has more than \<open>2^32 - 1\<close> items.
\<close>

theorem flatten_expand_plain:
  assumes "deref st (source this) = Obj kvs" "plain_props kvs" "distinct (map fst kvs)"
    "\<forall>e\<in>set (each_walk False False [] (Obj kvs)). \<not> reserved (fst e)"
    "short_lists (Obj kvs)"
  shows "\<exists>st1 n1 st2 n2. Notation_flatten st this = (st1, n1) \<and>
    Notation_expand st1 n1 = Inr (st2, n2) \<and> deref st2 (source n2) = Obj kvs"
proof -
  let ?flat = "map (\<lambda>l. (joinNotes (fst l), snd l)) (prop_leaves kvs)"
  let ?st1 = "st @ [Obj ?flat]"
  let ?n1 = "this\<lparr>source := length st\<rparr>"
  let ?st1' = "?st1 @ [Obj []]"
  let ?n = "\<lparr>source = length ?st1, isArray = False, options = DEFAULT_OPTS\<rparr>"
  from assms(5) have sh: "short_props kvs" by simp
  from assms(1) flatten_plain [OF assms(2,3,4)]
  have f: "Notation_flatten st this = (?st1, ?n1)"
    by (simp add: Notation_flatten_def alloc_def)
  have d: "deref ?st1' (length ?st1) = Obj []" by (simp add: deref_def nth_append)
  then have c: "Notation_create ?st1' (length ?st1) DEFAULT_OPTS = Inr ?n"
    by (simp add: Notation_create_def js_type.simps)
  have s: "source ?n < length ?st1'" by simp
  from d have d': "deref ?st1' (source ?n) = Obj []" by simp
  note m = expand_flat [OF assms(2,3,4) s d' sh]
  have fl: "deref ?st1 (source ?n1) = Obj ?flat" by (simp add: deref_def nth_append)
  have "Notation_expand ?st1 ?n1 = Inr (?st1'[source ?n := Obj kvs], ?n1\<lparr>source := source ?n\<rparr>)"
    unfolding Notation_expand_def alloc_def using c m fl
    by (simp add: Notation_merge_def)
  moreover have "deref (?st1'[source ?n := Obj kvs]) (source (?n1\<lparr>source := source ?n\<rparr>)) = Obj kvs"
    by (simp add: deref_def)
  ultimately show ?thesis using f by blast
qed

text \<open>
  The map \<open>{a: [1, {b: 2}]}\<close> flattens to \<open>{"a[0]": 1, "a[1].b": 2}\<close> and expands back
  to itself.
\<close>

theorem flatten_expand_plain_witness:
  "\<exists>st1 n1 st2 n2.
     Notation_flatten [Obj [(''a'', Arr [Num 1, Obj [(''b'', Num 2)]])]]
       \<lparr>source = 0, isArray = False, options = DEFAULT_OPTS\<rparr> = (st1, n1) \<and>
     Notation_expand st1 n1 = Inr (st2, n2) \<and>
     deref st2 (source n2) = Obj [(''a'', Arr [Num 1, Obj [(''b'', Num 2)]])]"
proof -
  let ?kvs = "[(''a'', Arr [Num 1, Obj [(''b'', Num 2)]])]"
  let ?n = "\<lparr>source = 0, isArray = False, options = DEFAULT_OPTS\<rparr>"
  have 1: "deref [Obj ?kvs] (source ?n) = Obj ?kvs" by code_simp
  have 2: "plain_props ?kvs" by code_simp
  have 3: "distinct (map fst ?kvs)" by code_simp
  have 4: "\<forall>e\<in>set (each_walk False False [] (Obj ?kvs)). \<not> reserved (fst e)" by code_simp
  have 5: "short_lists (Obj ?kvs)" by code_simp
  show ?thesis using flatten_expand_plain [OF 1 2 3 4 5] .
qed

text \<open>
  Claim C3 as stated fails on a map with an empty map in it: \<open>{a: {}}\<close> has no leaf,
  so it flattens to \<open>{}\<close>, which expands to \<open>{}\<close>.
\<close>

theorem flatten_expand_counterexample:
  "Notation_flatten [Obj [(''a'', Obj [])]]
     \<lparr>source = 0, isArray = False, options = DEFAULT_OPTS\<rparr> =
   ([Obj [(''a'', Obj [])], Obj []], \<lparr>source = 1, isArray = False, options = DEFAULT_OPTS\<rparr>) \<and>
   Notation_expand [Obj [(''a'', Obj [])], Obj []]
     \<lparr>source = 1, isArray = False, options = DEFAULT_OPTS\<rparr> =
   Inr ([Obj [(''a'', Obj [])], Obj [], Obj []],
        \<lparr>source = 2, isArray = False, options = DEFAULT_OPTS\<rparr>) \<and>
   deref [Obj [(''a'', Obj [])], Obj [], Obj []] 2 \<noteq> Obj [(''a'', Obj [])]"
  by code_simp

end
